theory Spec2Isabelle
  imports Main
begin

section \<open>Errors\<close>

text \<open>
  The exceptions the Python source can raise. A failing \<^verbatim>\<open>assert\<close> is
  \<open>AssertionError\<close>; comparing \<^verbatim>\<open>None\<close> with an integer is \<open>TypeError\<close>; reading an
  attribute an object does not have is \<open>AttributeError\<close>; \<^verbatim>\<open>len\<close> of an object whose
  \<^verbatim>\<open>__len__\<close> returns more than \<^verbatim>\<open>sys.maxsize\<close> is \<open>OverflowError\<close>; reading a dict
  at a key it does not have is \<open>KeyError\<close>; \<^verbatim>\<open>next\<close> on an iterator that has ended is
  \<open>StopIteration\<close>.
\<close>

datatype error =
  AssertionError | IndexError | TypeError | ValueError | AttributeError | OverflowError
  | KeyError | StopIteration

section \<open>Slice\<close>

text \<open>
  The dataclass \<^verbatim>\<open>Slice\<close>. Python integers are unbounded, so addresses are \<open>int\<close>.
  The field \<^verbatim>\<open>section\<close> is written \<open>section'\<close>.
\<close>

record Slice =
  start :: int
  stop :: int
  name :: "string option"
  section' :: "string option"
  tags :: "string set"

text \<open>\<^verbatim>\<open>Slice(start, stop)\<close> with the default name, section and tags.\<close>

definition gap :: "int \<Rightarrow> int \<Rightarrow> Slice" where
  "gap a b = \<lparr>start = a, stop = b, name = None, section' = None, tags = {}\<rparr>"

text \<open>\<^verbatim>\<open>__contains__\<close> on an integer key and on a Slice key.\<close>

definition contains_addr :: "Slice \<Rightarrow> int \<Rightarrow> bool" where
  "contains_addr s key = (start s \<le> key \<and> key < stop s)"

definition contains_slice :: "Slice \<Rightarrow> Slice \<Rightarrow> bool" where
  "contains_slice s key = (start s \<le> start key \<and> stop s \<ge> stop key)"

text \<open>
  \<^verbatim>\<open>sys.maxsize\<close> of a 64-bit CPython, the largest value \<^verbatim>\<open>len\<close> returns.
\<close>

definition maxsize :: int where
  "maxsize = 2 ^ 63 - 1"

text \<open>
  \<^verbatim>\<open>len(s)\<close> for a Slice: \<^verbatim>\<open>__len__\<close> asserts \<open>start \<le> stop\<close> and returns
  \<open>stop - start\<close>; the built-in \<^verbatim>\<open>len\<close> then raises \<open>OverflowError\<close> when that value
  exceeds \<^verbatim>\<open>sys.maxsize\<close>.
\<close>

definition len_slice :: "Slice \<Rightarrow> error + int" where
  "len_slice s =
     (if \<not> start s \<le> stop s then Inl AssertionError
      else if stop s - start s > maxsize then Inl OverflowError
      else Inr (stop s - start s))"

text \<open>\<^verbatim>\<open>__eq__\<close>: two slices are equal when they occupy the same region.\<close>

definition slice_eq :: "Slice \<Rightarrow> Slice \<Rightarrow> bool" where
  "slice_eq s other = (start s = start other \<and> stop s = stop other)"

text \<open>\<^verbatim>\<open>__gt__\<close>: this slice starts after another slice.\<close>

definition slice_gt :: "Slice \<Rightarrow> Slice \<Rightarrow> bool" where
  "slice_gt s other = (start s > start other)"

text \<open>
  The class defines no \<^verbatim>\<open>__lt__\<close>, so Python evaluates \<^verbatim>\<open>x < y\<close> by the reflected
  call \<^verbatim>\<open>y.__gt__(x)\<close>.
\<close>

definition slice_lt :: "Slice \<Rightarrow> Slice \<Rightarrow> bool" where
  "slice_lt x y = slice_gt y x"

definition has_name :: "Slice \<Rightarrow> bool" where
  "has_name s = (name s \<noteq> None)"

section \<open>Python list operations\<close>

text \<open>\<^verbatim>\<open>xs[i]\<close> for an integer index: negative indices count from the end.\<close>

definition py_index :: "'a list \<Rightarrow> int \<Rightarrow> error + nat" where
  "py_index xs i =
     (let n = int (length xs); j = (if i < 0 then n + i else i)
      in if 0 \<le> j \<and> j < n then Inr (nat j) else Inl IndexError)"

text \<open>\<^verbatim>\<open>xs.insert(n, v)\<close> for a natural index; an index past the end appends.\<close>

definition insert_at :: "'a list \<Rightarrow> nat \<Rightarrow> 'a \<Rightarrow> 'a list" where
  "insert_at xs n v = take n xs @ v # drop n xs"

text \<open>\<^verbatim>\<open>xs.insert(i, v)\<close> for an integer index: a negative index counts from the
  end and is clamped to 0.\<close>

definition py_insert :: "'a list \<Rightarrow> int \<Rightarrow> 'a \<Rightarrow> 'a list" where
  "py_insert xs i v =
     insert_at xs (nat (if i < 0 then max 0 (int (length xs) + i) else i)) v"

text \<open>\<^verbatim>\<open>xs.pop(n)\<close>, the list that remains.\<close>

definition list_pop :: "'a list \<Rightarrow> nat \<Rightarrow> 'a list" where
  "list_pop xs n = take n xs @ drop (Suc n) xs"

section \<open>bisect\<close>

text \<open>
  \<^verbatim>\<open>bisect.bisect\<close> (that is \<^verbatim>\<open>bisect_right\<close>) and \<^verbatim>\<open>bisect.bisect_left\<close> of the
  standard library, with the loop they run:
  \<^verbatim>\<open>while lo < hi: mid = (lo + hi) // 2; if x < a[mid]: hi = mid else: lo = mid + 1\<close>
  and
  \<^verbatim>\<open>while lo < hi: mid = (lo + hi) // 2; if a[mid] < x: lo = mid + 1 else: hi = mid\<close>.
\<close>

function bisect_right_loop :: "Slice list \<Rightarrow> Slice \<Rightarrow> nat \<Rightarrow> nat \<Rightarrow> nat" where
  "bisect_right_loop a x lo hi =
     (if lo < hi then
        (if slice_lt x (a ! ((lo + hi) div 2))
         then bisect_right_loop a x lo ((lo + hi) div 2)
         else bisect_right_loop a x ((lo + hi) div 2 + 1) hi)
      else lo)"
  by pat_completeness auto
termination
  by (relation "measure (\<lambda>(a, x, lo, hi). hi - lo)") auto

function bisect_left_loop :: "Slice list \<Rightarrow> Slice \<Rightarrow> nat \<Rightarrow> nat \<Rightarrow> nat" where
  "bisect_left_loop a x lo hi =
     (if lo < hi then
        (if slice_lt (a ! ((lo + hi) div 2)) x
         then bisect_left_loop a x ((lo + hi) div 2 + 1) hi
         else bisect_left_loop a x lo ((lo + hi) div 2))
      else lo)"
  by pat_completeness auto
termination
  by (relation "measure (\<lambda>(a, x, lo, hi). hi - lo)") auto

definition bisect :: "Slice list \<Rightarrow> Slice \<Rightarrow> nat" where
  "bisect a x = bisect_right_loop a x 0 (length a)"

definition bisect_left :: "Slice list \<Rightarrow> Slice \<Rightarrow> nat" where
  "bisect_left a x = bisect_left_loop a x 0 (length a)"

section \<open>SliceTable\<close>

text \<open>The table's fields \<^verbatim>\<open>start\<close> and \<^verbatim>\<open>stop\<close> are \<open>t_start\<close> and \<open>t_stop\<close>.\<close>

record SliceTable =
  slices :: "Slice list"
  t_start :: int
  t_stop :: int

text \<open>\<^verbatim>\<open>SliceTable(start, stop)\<close>: one gap over the whole range.\<close>

definition new_table :: "int \<Rightarrow> int \<Rightarrow> error + SliceTable" where
  "new_table a b =
     (if a < b then Inr \<lparr>slices = [gap a b], t_start = a, t_stop = b\<rparr>
      else Inl AssertionError)"

text \<open>\<^verbatim>\<open>SliceTable.__contains__\<close>: the range of a slice lies within the table.\<close>

definition table_contains :: "SliceTable \<Rightarrow> Slice \<Rightarrow> bool" where
  "table_contains T s = (t_start T \<le> start s \<and> t_stop T \<ge> stop s)"

text \<open>\<^verbatim>\<open>find\<close>: linear scan for the first slice an address falls into, with its index.\<close>

fun find_from :: "Slice list \<Rightarrow> int \<Rightarrow> nat \<Rightarrow> (Slice \<times> nat) option" where
  "find_from [] addr i = None"
| "find_from (s # ss) addr i =
     (if contains_addr s addr then Some (s, i) else find_from ss addr (Suc i))"

definition find_slice :: "SliceTable \<Rightarrow> int \<Rightarrow> (Slice \<times> nat) option" where
  "find_slice T addr = find_from (slices T) addr 0"

subsection \<open>add\<close>

text \<open>
  The two leftover gaps are built by \<^verbatim>\<open>Slice(a, b)\<close> under a guard \<open>a < b\<close>, so the
  constructor's assertion \<open>a \<le> b\<close> cannot fail there.
\<close>

definition add :: "SliceTable \<Rightarrow> Slice \<Rightarrow> error + SliceTable" where
  "add T s =
     (case len_slice s of Inl e \<Rightarrow> Inl e | Inr l \<Rightarrow>
      if \<not> l > 0 then Inl AssertionError
      else if \<not> table_contains T s then Inl AssertionError
      else
        (let i = int (bisect (slices T) s) - 1 in
         case py_index (slices T) i of Inl e \<Rightarrow> Inl e | Inr k \<Rightarrow>
           (let target = slices T ! k in
            if \<not> (name target = None \<and> contains_slice target s) then Inl AssertionError
            else
              (let (ss1, i1) =
                     (if start s > start target
                      then (py_insert (slices T) i (gap (start target) (start s)), i + 1)
                      else (slices T, i))
               in case py_index ss1 i1 of Inl e \<Rightarrow> Inl e | Inr k1 \<Rightarrow>
                    (let ss2 = ss1[k1 := s];
                         ss3 = (if stop s < stop target
                                then py_insert ss2 (i1 + 1) (gap (stop s) (stop target))
                                else ss2)
                     in Inr (T\<lparr>slices := ss3\<rparr>))))))"

subsection \<open>find_parent\<close>

definition find_parent :: "SliceTable \<Rightarrow> Slice \<Rightarrow> Slice option" where
  "find_parent T s =
     (let i = bisect_left (slices T) s
      in if i < length (slices T) then Some (slices T ! i) else None)"

subsection \<open>remove\<close>

text \<open>
  \<^verbatim>\<open>__merge_left\<close> and \<^verbatim>\<open>__merge_right\<close> take the list and an index and return the
  list and the index of the gap.
\<close>

definition merge_left :: "Slice list \<Rightarrow> nat \<Rightarrow> error + (Slice list \<times> nat)" where
  "merge_left ss idx =
     (if \<not> idx < length ss then Inl IndexError
      else if has_name (ss ! idx) then Inl AssertionError
      else if idx > 0 \<and> \<not> has_name (ss ! (idx - 1)) then
        Inr (list_pop (ss[idx - 1 := (ss ! (idx - 1))\<lparr>stop := stop (ss ! idx)\<rparr>]) idx, idx - 1)
      else Inr (ss, idx))"

definition merge_right :: "Slice list \<Rightarrow> nat \<Rightarrow> error + (Slice list \<times> nat)" where
  "merge_right ss idx =
     (if \<not> idx < length ss then Inl IndexError
      else if has_name (ss ! idx) then Inl AssertionError
      else if idx + 1 < length ss \<and> \<not> has_name (ss ! (idx + 1)) then
        Inr (list_pop (ss[idx + 1 := (ss ! (idx + 1))\<lparr>start := start (ss ! idx)\<rparr>]) idx, idx)
      else Inr (ss, idx))"

text \<open>
  \<^verbatim>\<open>__remove_slice\<close>. The copies of the target cannot fail the constructor's
  assertion: the three assertions before them give \<open>start target < stop target\<close>.
\<close>

definition remove_slice :: "Slice list \<Rightarrow> nat \<Rightarrow> int \<Rightarrow> int \<Rightarrow> error + (Slice list \<times> nat)" where
  "remove_slice ss idx new_start new_stop =
     (if \<not> idx < length ss then Inl IndexError
      else
        (let target = ss ! idx in
         if \<not> new_start < new_stop then Inl AssertionError
         else if \<not> start target \<le> new_start then Inl AssertionError
         else if \<not> stop target \<ge> new_stop then Inl AssertionError
         else if start target = new_start \<and> stop target = new_stop then
           (case merge_left (ss[idx := target\<lparr>name := None\<rparr>]) idx of
              Inl e \<Rightarrow> Inl e
            | Inr (ss2, idx2) \<Rightarrow> merge_right ss2 idx2)
         else if start target = new_start then
           (let gp = target\<lparr>name := None, stop := new_stop\<rparr>;
                part = target\<lparr>start := new_stop\<rparr>
            in merge_left (insert_at (ss[idx := gp]) (idx + 1) part) idx)
         else if stop target = new_stop then
           (let part = target\<lparr>stop := new_start\<rparr>;
                gp = target\<lparr>name := None, start := new_start\<rparr>
            in merge_right (insert_at (ss[idx := part]) (idx + 1) gp) (idx + 1))
         else
           (let part_l = target\<lparr>stop := new_start\<rparr>;
                gp = target\<lparr>name := None, start := new_start, stop := new_stop\<rparr>;
                part_r = target\<lparr>start := new_stop\<rparr>
            in Inr (insert_at (insert_at (ss[idx := part_l]) (idx + 1) gp) (idx + 2) part_r,
                    idx + 1))))"


text \<open>
  What \<^verbatim>\<open>__remove_slice\<close> leaves after the index it returns: the slices after the
  target, or those without the right neighbour that was merged, or the right
  remainder of the target (which starts at the end of the removed range) followed by
  them. The loop of \<^verbatim>\<open>__remove\<close> terminates by this.
\<close>

lemma merge_left_drop:
  "merge_left ss idx = Inr (ss', idx') \<Longrightarrow> drop (Suc idx') ss' = drop (Suc idx) ss"
  by (auto simp: merge_left_def list_pop_def split: if_splits)

lemma merge_right_drop:
  "merge_right ss idx = Inr (ss', idx') \<Longrightarrow>
     idx' = idx \<and> (drop (Suc idx') ss' = drop (Suc idx) ss \<or> drop (Suc idx') ss' = drop (Suc (Suc idx)) ss)"
  by (auto simp: merge_right_def list_pop_def split: if_splits)

lemma drop_insert_at_Suc:
  "n \<le> length xs \<Longrightarrow> drop (Suc n) (insert_at xs n v) = drop n xs"
  by (simp add: insert_at_def)

lemma drop_insert_at:
  "n \<le> length xs \<Longrightarrow> drop n (insert_at xs n v) = v # drop n xs"
  by (simp add: insert_at_def)

lemma length_insert_at: "length (insert_at xs n v) = Suc (length xs)"
  by (simp add: insert_at_def)

lemma remove_slice_drop:
  assumes "remove_slice ss idx ns (min stp (stop (ss ! idx))) = Inr (ss', idx')"
  shows "drop (Suc idx') ss' = drop (Suc idx) ss \<or> drop (Suc idx') ss' = drop (Suc (Suc idx)) ss
     \<or> (\<exists>p. drop (Suc idx') ss' = p # drop (Suc idx) ss \<and> start p = stp)"
proof -
  let ?t = "ss ! idx"
  let ?ne = "min stp (stop ?t)"
  from assms have idx: "idx < length ss"
    by (auto simp: remove_slice_def split: if_splits)
  consider (exact) "start ?t = ns \<and> stop ?t = ?ne"
    | (left) "\<not> (start ?t = ns \<and> stop ?t = ?ne)" "start ?t = ns"
    | (right) "start ?t \<noteq> ns" "stop ?t = ?ne"
    | (mid) "start ?t \<noteq> ns" "stop ?t \<noteq> ?ne"
    by blast
  then show ?thesis
  proof cases
    case exact
    with assms idx obtain ss2 idx2 where
      l: "merge_left (ss[idx := ?t\<lparr>name := None\<rparr>]) idx = Inr (ss2, idx2)"
      and r: "merge_right ss2 idx2 = Inr (ss', idx')"
      by (auto simp: remove_slice_def Let_def split: if_splits sum.splits)
    from merge_left_drop[OF l] have e: "drop (Suc idx2) ss2 = drop (Suc idx) ss" by simp
    have "drop (Suc (Suc idx2)) ss2 = drop 1 (drop (Suc idx2) ss2)" by simp
    also have "\<dots> = drop 1 (drop (Suc idx) ss)" by (simp only: e)
    also have "\<dots> = drop (Suc (Suc idx)) ss" by simp
    finally have e2: "drop (Suc (Suc idx2)) ss2 = drop (Suc (Suc idx)) ss" .
    from merge_right_drop[OF r] have "idx' = idx2"
      and "drop (Suc idx') ss' = drop (Suc idx2) ss2 \<or> drop (Suc idx') ss' = drop (Suc (Suc idx2)) ss2"
      by blast+
    then show ?thesis unfolding e e2 by blast
  next
    case left
    then have ne: "?ne = stp" by auto
    from left assms idx have
      l: "merge_left (insert_at (ss[idx := ?t\<lparr>name := None, stop := ?ne\<rparr>]) (idx + 1) (?t\<lparr>start := ?ne\<rparr>)) idx = Inr (ss', idx')"
      by (auto simp: remove_slice_def Let_def split: if_splits)
    from merge_left_drop[OF l] idx ne show ?thesis
      by (simp add: drop_insert_at)
  next
    case right
    from right assms idx have
      r: "merge_right (insert_at (ss[idx := ?t\<lparr>stop := ns\<rparr>]) (idx + 1) (?t\<lparr>name := None, start := ns\<rparr>)) (idx + 1) = Inr (ss', idx')"
      by (auto simp: remove_slice_def Let_def split: if_splits)
    let ?L = "insert_at (ss[idx := ?t\<lparr>stop := ns\<rparr>]) (idx + 1) (?t\<lparr>name := None, start := ns\<rparr>)"
    from idx have d1: "drop (Suc (idx + 1)) ?L = drop (Suc idx) ss"
      by (simp add: insert_at_def)
    from idx have d2: "drop (Suc (Suc (idx + 1))) ?L = drop (Suc (Suc idx)) ss"
      by (simp add: insert_at_def)
    from merge_right_drop[OF r] have
      "drop (Suc idx') ss' = drop (Suc (idx + 1)) ?L \<or> drop (Suc idx') ss' = drop (Suc (Suc (idx + 1))) ?L"
      by blast
    then show ?thesis unfolding d1 d2 by blast
  next
    case mid
    then have ne: "?ne = stp" by auto
    from mid assms idx have
      s: "ss' = insert_at (insert_at (ss[idx := ?t\<lparr>stop := ns\<rparr>]) (idx + 1) (?t\<lparr>name := None, start := ns, stop := ?ne\<rparr>)) (idx + 2) (?t\<lparr>start := ?ne\<rparr>)"
      and i: "idx' = idx + 1"
      by (auto simp: remove_slice_def Let_def split: if_splits)
    from idx have "drop (Suc idx') ss' = (?t\<lparr>start := ?ne\<rparr>) # drop (Suc idx) ss"
      unfolding s i by (simp add: insert_at_def)
    moreover have "start (?t\<lparr>start := ?ne\<rparr>) = stp" using ne by simp
    ultimately show ?thesis by blast
  qed
qed



text \<open>
  \<^verbatim>\<open>__remove\<close>, the loop: \<^verbatim>\<open>while idx < len(self.slices) and self.slices[idx].start < stop\<close>.
\<close>

function remove_loop :: "Slice list \<Rightarrow> nat \<Rightarrow> int \<Rightarrow> int \<Rightarrow> error + Slice list" where
  "remove_loop ss idx strt stp =
     (if idx < length ss \<and> start (ss ! idx) < stp then
        (case remove_slice ss idx (max strt (start (ss ! idx))) (min stp (stop (ss ! idx))) of
           Inl e \<Rightarrow> Inl e
         | Inr (ss', idx') \<Rightarrow> remove_loop ss' (idx' + 1) strt stp)
      else Inr ss)"
  by pat_completeness auto
termination
proof (relation "measure (\<lambda>(ss, idx, strt, stp). length (filter (\<lambda>s. start s < stp) (drop idx ss)))")
  show "wf (measure (\<lambda>(ss, idx, strt, stp). length (filter (\<lambda>s. start s < stp) (drop idx ss))))"
    by simp
next
  fix ss :: "Slice list" and idx :: nat and strt stp :: int and x2 ss' idx'
  assume c: "idx < length ss \<and> start (ss ! idx) < stp"
    and r: "remove_slice ss idx (max strt (start (ss ! idx))) (min stp (stop (ss ! idx))) = Inr x2"
    and x: "(ss', idx') = x2"
  let ?c = "\<lambda>xs. length (filter (\<lambda>s. start s < stp) xs)"
  from r x have r': "remove_slice ss idx (max strt (start (ss ! idx))) (min stp (stop (ss ! idx))) = Inr (ss', idx')"
    by simp
  from c have d: "drop idx ss = ss ! idx # drop (Suc idx) ss"
    by (simp add: Cons_nth_drop_Suc)
  from c have big: "?c (drop idx ss) = Suc (?c (drop (Suc idx) ss))"
    unfolding d by simp
  have le: "?c (drop (Suc (Suc idx)) ss) \<le> ?c (drop (Suc idx) ss)"
  proof -
    have "drop (Suc (Suc idx)) ss = drop 1 (drop (Suc idx) ss)" by simp
    also have "\<dots> = tl (drop (Suc idx) ss)" by (simp only: drop_Suc drop_0 One_nat_def)
    finally show ?thesis by (cases "drop (Suc idx) ss") (simp_all del: drop_Suc_Cons)
  qed
  from remove_slice_drop[OF r'] have "?c (drop (Suc idx') ss') \<le> ?c (drop (Suc idx) ss)"
  proof (elim disjE exE conjE)
    assume "drop (Suc idx') ss' = drop (Suc idx) ss" then show ?thesis by simp
  next
    assume "drop (Suc idx') ss' = drop (Suc (Suc idx)) ss" then show ?thesis using le by simp
  next
    fix p assume "drop (Suc idx') ss' = p # drop (Suc idx) ss" "start p = stp"
    then show ?thesis by simp
  qed
  with big show "((ss', idx' + 1, strt, stp), (ss, idx, strt, stp))
      \<in> measure (\<lambda>(ss, idx, strt, stp). length (filter (\<lambda>s. start s < stp) (drop idx ss)))"
    by simp
qed

text \<open>
  \<^verbatim>\<open>remove(start, stop)\<close>. When \<^verbatim>\<open>find\<close> returns no index, the loop condition
  compares \<^verbatim>\<open>None\<close> with an integer and raises \<open>TypeError\<close>.
\<close>

definition remove :: "SliceTable \<Rightarrow> int \<Rightarrow> int \<Rightarrow> error + SliceTable" where
  "remove T strt stp =
     (let strt' = max strt (t_start T); stp' = min stp (t_stop T)
      in case find_slice T strt' of
           None \<Rightarrow> Inl TypeError
         | Some (s, idx) \<Rightarrow>
             (case remove_loop (slices T) idx strt' stp' of
                Inl e \<Rightarrow> Inl e
              | Inr ss \<Rightarrow> Inr (T\<lparr>slices := ss\<rparr>)))"

subsection \<open>sum_named_slices\<close>

text \<open>
  Attribute lookup on a table. \<^verbatim>\<open>__init__\<close> sets the instance attributes
  \<^verbatim>\<open>slices\<close>, \<^verbatim>\<open>start\<close> and \<^verbatim>\<open>stop\<close>; the class body binds the methods and the two
  constants. Any other name raises \<open>AttributeError\<close>.
\<close>

datatype attr_value = SlicesAttr "Slice list" | IntAttr int | ClassAttr string

definition class_attrs :: "string list" where
  "class_attrs = [''load_path'', ''size'', ''count'', ''read_from'', ''find'', ''slice'',
     ''find_parent'', ''sum_named_slices'', ''filter'', ''ONLY_ENABLED'', ''add'', ''remove'',
     ''SECTION_ORDER'', ''object_slices'', ''set_sections'']"

definition getattr :: "SliceTable \<Rightarrow> string \<Rightarrow> error + attr_value" where
  "getattr T a =
     (if a = ''slices'' then Inr (SlicesAttr (slices T))
      else if a = ''start'' then Inr (IntAttr (t_start T))
      else if a = ''stop'' then Inr (IntAttr (t_stop T))
      else if a \<in> set class_attrs then Inr (ClassAttr a)
      else Inl AttributeError)"

text \<open>The loop of \<^verbatim>\<open>sum_named_slices\<close> over a list of slices, from the total \<open>t\<close>.\<close>

fun sum_named :: "Slice list \<Rightarrow> int \<Rightarrow> error + int" where
  "sum_named [] t = Inr t"
| "sum_named (s # ss) t =
     (if name s \<noteq> None then
        (case len_slice s of Inl e \<Rightarrow> Inl e | Inr l \<Rightarrow> sum_named ss (t + l))
      else sum_named ss t)"

definition sum_named_slices :: "SliceTable \<Rightarrow> error + int" where
  "sum_named_slices T =
     (case getattr T ''segs'' of
        Inl e \<Rightarrow> Inl e
      | Inr (SlicesAttr ss) \<Rightarrow> sum_named ss 0
      | Inr _ \<Rightarrow> Inl TypeError)"

text \<open>\<^verbatim>\<open>Slice(a, b, n)\<close>: a named slice with the default section and tags.\<close>

definition named :: "string \<Rightarrow> int \<Rightarrow> int \<Rightarrow> Slice" where
  "named n a b = \<lparr>start = a, stop = b, name = Some n, section' = None, tags = {}\<rparr>"

section \<open>The partition invariants\<close>

text \<open>
  \<open>chain a ss b\<close>: the slices tile \<open>[a, b)\<close>: the first starts at \<open>a\<close>, each has positive
  length and stops where the next starts, the last stops at \<open>b\<close>.
\<close>

fun chain :: "int \<Rightarrow> Slice list \<Rightarrow> int \<Rightarrow> bool" where
  "chain a [] b = (a = b)"
| "chain a (s # ss) b = (start s = a \<and> start s < stop s \<and> chain (stop s) ss b)"

fun no_adjacent_gaps :: "Slice list \<Rightarrow> bool" where
  "no_adjacent_gaps (a # b # ss) = (\<not> (name a = None \<and> name b = None) \<and> no_adjacent_gaps (b # ss))"
| "no_adjacent_gaps [a] = True"
| "no_adjacent_gaps [] = True"

definition tiled :: "SliceTable \<Rightarrow> bool" where
  "tiled T = (slices T \<noteq> [] \<and> chain (t_start T) (slices T) (t_stop T))"

definition partition_inv :: "SliceTable \<Rightarrow> bool" where
  "partition_inv T = (tiled T \<and> no_adjacent_gaps (slices T))"

subsection \<open>slice\<close>

text \<open>
  \<^verbatim>\<open>copy(s)\<close> calls the constructor, whose \<^verbatim>\<open>__post_init__\<close> asserts \<open>start \<le> stop\<close>; the
  copy keeps name, section and tags.
\<close>

definition copy_slice :: "Slice \<Rightarrow> error + Slice" where
  "copy_slice s = (if start s \<le> stop s then Inr s else Inl AssertionError)"

text \<open>
  The loop of \<^verbatim>\<open>slice\<close> over \<^verbatim>\<open>self.slices[start_idx:]\<close>; \<open>nt\<close> is the new table. A
  \<^verbatim>\<open>break\<close> returns the new table as it is.
\<close>

fun slice_loop :: "SliceTable \<Rightarrow> Slice list \<Rightarrow> int \<Rightarrow> int \<Rightarrow> error + SliceTable" where
  "slice_loop nt [] strt stp = Inr nt"
| "slice_loop nt (s # ss) strt stp =
     (case (if start s < strt
            then (case copy_slice s of Inl e \<Rightarrow> Inl e | Inr c \<Rightarrow> Inr (c\<lparr>start := strt\<rparr>))
            else Inr s) of
        Inl e \<Rightarrow> Inl e
      | Inr s1 \<Rightarrow>
          if start s1 \<ge> stp then Inr nt
          else if stop s1 > stp then
            (case copy_slice s1 of Inl e \<Rightarrow> Inl e | Inr c \<Rightarrow> add nt (c\<lparr>stop := stp\<rparr>))
          else
            (case add nt s1 of Inl e \<Rightarrow> Inl e | Inr nt' \<Rightarrow> slice_loop nt' ss strt stp))"

definition slice :: "SliceTable \<Rightarrow> int \<Rightarrow> int \<Rightarrow> error + SliceTable" where
  "slice T strt stp =
     (case find_slice T strt of
        None \<Rightarrow> Inl AssertionError
      | Some (s, start_idx) \<Rightarrow>
          (case new_table strt stp of
             Inl e \<Rightarrow> Inl e
           | Inr nt \<Rightarrow> slice_loop nt (drop start_idx (slices T)) strt stp))"

text \<open>
  A Region cut to the range \<open>[strt, stp)\<close>: only its bounds change.
\<close>

definition clip :: "int \<Rightarrow> int \<Rightarrow> Slice \<Rightarrow> Slice" where
  "clip strt stp s = s\<lparr>start := max strt (start s), stop := min stp (stop s)\<rparr>"

section \<open>Where a Region comes from\<close>





section \<open>Object grouping\<close>

definition SECTION_ORDER :: "string list" where
  "SECTION_ORDER = [''init'', ''extab'', ''extabindex'', ''text'', ''ctors'', ''dtors'',
     ''rodata'', ''data'', ''bss'', ''sdata'', ''sbss'', ''sdata2'', ''sbss2'']"

text \<open>\<^verbatim>\<open>xs.index(x)\<close>: the first position of \<open>x\<close>, \<open>ValueError\<close> when there is none.\<close>

fun list_index :: "'a list \<Rightarrow> 'a \<Rightarrow> error + nat" where
  "list_index [] x = Inl ValueError"
| "list_index (y # ys) x =
     (if y = x then Inr 0
      else (case list_index ys x of Inl e \<Rightarrow> Inl e | Inr i \<Rightarrow> Inr (Suc i)))"

text \<open>
  The dict \<^verbatim>\<open>object_sections\<close>, from the name of an object to the set of the sections of
  its slices. Names and sections are kept as the fields hold them, \<open>Some\<close> of a string.
\<close>

type_synonym object_sections = "string option \<rightharpoonup> string option set"

text \<open>
  The first loop of \<^verbatim>\<open>object_slices\<close>: a named slice is appended to the bucket of its
  section and its section joins the sections of its object; unnamed slices are skipped.
\<close>

fun fill_buckets ::
  "string list \<Rightarrow> Slice list \<Rightarrow> Slice list list \<Rightarrow> object_sections
     \<Rightarrow> error + (Slice list list \<times> object_sections)" where
  "fill_buckets order [] buckets osec = Inr (buckets, osec)"
| "fill_buckets order (s # ss) buckets osec =
     (if \<not> has_name s then fill_buckets order ss buckets osec
      else (case list_index (map Some order) (section' s) of
              Inl e \<Rightarrow> Inl e
            | Inr k \<Rightarrow>
                if \<not> k < length buckets then Inl IndexError
                else fill_buckets order ss (buckets[k := buckets ! k @ [s]])
                       (osec(name s \<mapsto>
                          insert (section' s) (case osec (name s) of None \<Rightarrow> {} | Some S \<Rightarrow> S)))))"

text \<open>
  The loop over \<^verbatim>\<open>enumerate(buckets)\<close> that collects the dependencies of the front slice
  of bucket \<open>i\<close>, whose name is \<open>nm\<close>; \<open>sl\<close> is the list \<^verbatim>\<open>slices\<close>. The result is \<open>None\<close>
  when \<^verbatim>\<open>deps_match\<close> ends false.
\<close>

fun scan_deps ::
  "nat \<Rightarrow> string option \<Rightarrow> string list \<Rightarrow> object_sections \<Rightarrow> (nat \<times> Slice list) list
     \<Rightarrow> Slice list \<Rightarrow> error + Slice list option" where
  "scan_deps i nm order osec [] sl = Inr (Some sl)"
| "scan_deps i nm order osec ((j, dep_bucket) # rest) sl =
     (if i = j then scan_deps i nm order osec rest sl
      else if \<not> j < length order then Inl IndexError
      else (case osec nm of
              None \<Rightarrow> Inl KeyError
            | Some S \<Rightarrow>
                if Some (order ! j) \<in> S then
                  (case dep_bucket of
                     [] \<Rightarrow> Inl IndexError
                   | d # _ \<Rightarrow>
                       if name d \<noteq> nm then Inr None
                       else scan_deps i nm order osec rest (sl @ [d]))
                else scan_deps i nm order osec rest sl))"

text \<open>
  The inner \<^verbatim>\<open>while\<close> of the removal of the chosen slices from their buckets: from \<open>j\<close>,
  the first bucket that is not empty and whose front slice has the section of \<open>s\<close>.
\<close>

function find_bucket :: "Slice list list \<Rightarrow> nat \<Rightarrow> Slice \<Rightarrow> error + nat" where
  "find_bucket buckets j s =
     (if \<not> j < length buckets then Inl IndexError
      else if buckets ! j = [] \<or> section' (hd (buckets ! j)) \<noteq> section' s
      then find_bucket buckets (j + 1) s
      else Inr j)"
  by pat_completeness auto

termination find_bucket
  by (relation "measure (\<lambda>(buckets, j, s). length buckets - j)") auto

declare find_bucket.simps [simp del]

fun pop_slices :: "Slice list list \<Rightarrow> nat \<Rightarrow> Slice list \<Rightarrow> error + Slice list list" where
  "pop_slices buckets j [] = Inr buckets"
| "pop_slices buckets j (s # ss) =
     (case find_bucket buckets j s of
        Inl e \<Rightarrow> Inl e
      | Inr j' \<Rightarrow> pop_slices (buckets[j' := tl (buckets ! j')]) j' ss)"

text \<open>
  The \<^verbatim>\<open>for\<close> loop over \<^verbatim>\<open>enumerate(buckets)\<close> that selects the next object: the result
  is \<open>None\<close> when \<^verbatim>\<open>resolved_row\<close> ends false, and else the name, the slices of the object
  and the buckets without them.
\<close>

fun resolve_row ::
  "string list \<Rightarrow> object_sections \<Rightarrow> Slice list list \<Rightarrow> (nat \<times> Slice list) list
     \<Rightarrow> error + (string option \<times> Slice list \<times> Slice list list) option" where
  "resolve_row order osec buckets [] = Inr None"
| "resolve_row order osec buckets ((i, bucket) # rest) =
     (case bucket of
        [] \<Rightarrow> resolve_row order osec buckets rest
      | b # _ \<Rightarrow>
          (case scan_deps i (name b) order osec (enumerate 0 buckets) [b] of
             Inl e \<Rightarrow> Inl e
           | Inr None \<Rightarrow> resolve_row order osec buckets rest
           | Inr (Some sl) \<Rightarrow>
               (case pop_slices buckets 0 sl of
                  Inl e \<Rightarrow> Inl e
                | Inr buckets' \<Rightarrow> Inr (Some (name b, sl, buckets')))))"

text \<open>\<^verbatim>\<open>d[k] = v\<close> on a dict kept in insertion order.\<close>

fun dict_set :: "'k \<Rightarrow> 'v \<Rightarrow> ('k \<times> 'v) list \<Rightarrow> ('k \<times> 'v) list" where
  "dict_set k v [] = [(k, v)]"
| "dict_set k v (p # ps) = (if fst p = k then (k, v) # ps else p # dict_set k v ps)"

lemma find_bucket_Inr:
  "find_bucket buckets j s = Inr j' \<Longrightarrow> j' < length buckets \<and> buckets ! j' \<noteq> []"
proof (induction buckets j s rule: find_bucket.induct)
  case (1 buckets j s)
  show ?case
  proof (cases "j < length buckets")
    case False
    with "1.prems" show ?thesis by (subst (asm) find_bucket.simps) simp
  next
    case True
    show ?thesis
    proof (cases "buckets ! j = [] \<or> section' (hd (buckets ! j)) \<noteq> section' s")
      case c: True
      with True "1.prems" have "find_bucket buckets (j + 1) s = Inr j'"
        by (subst (asm) find_bucket.simps) simp
      with "1.IH" True c show ?thesis by blast
    next
      case c: False
      with True "1.prems" have "j' = j"
        by (subst (asm) find_bucket.simps) simp
      with True c show ?thesis by simp
    qed
  qed
qed

lemma pop_slices_size:
  "pop_slices buckets j sl = Inr buckets'
   \<Longrightarrow> sum_list (map length buckets') + length sl = sum_list (map length buckets)"
proof (induction sl arbitrary: buckets j)
  case Nil
  then show ?case by simp
next
  case (Cons s sl)
  from Cons.prems obtain j' where f: "find_bucket buckets j s = Inr j'"
    and p: "pop_slices (buckets[j' := tl (buckets ! j')]) j' sl = Inr buckets'"
    by (auto split: sum.splits)
  from find_bucket_Inr[OF f] have j': "j' < length buckets" "buckets ! j' \<noteq> []"
    by simp_all
  have "sum_list (map length (buckets[j' := tl (buckets ! j')])) + 1
        = sum_list (map length buckets)"
  proof -
    from j' have l: "length (buckets ! j') = Suc (length (tl (buckets ! j')))"
      by (cases "buckets ! j'") simp_all
    from j'(1) have m: "length (buckets ! j') \<le> sum_list (map length buckets)"
      by (intro member_le_sum_list) auto
    from j'(1) have "sum_list ((map length buckets)[j' := length (tl (buckets ! j'))])
        = sum_list (map length buckets) + length (tl (buckets ! j')) - length (buckets ! j')"
      by (simp add: sum_list_update del: length_tl)
    then have "sum_list (map length (buckets[j' := tl (buckets ! j')]))
        = sum_list (map length buckets) + length (tl (buckets ! j')) - length (buckets ! j')"
      by (simp only: map_update)
    with l m show ?thesis by arith
  qed
  moreover have "length (s # sl) = length sl + 1" by simp
  moreover note Cons.IH[OF p]
  ultimately show ?case by arith
qed

lemma scan_deps_length:
  "scan_deps i nm order osec js sl = Inr (Some sl') \<Longrightarrow> length sl \<le> length sl'"
proof (induction js arbitrary: sl)
  case Nil
  then show ?case by simp
next
  case (Cons p js)
  obtain j dep_bucket where p: "p = (j, dep_bucket)" by (cases p)
  from Cons.prems consider "scan_deps i nm order osec js sl = Inr (Some sl')"
    | d where "scan_deps i nm order osec js (sl @ [d]) = Inr (Some sl')"
    unfolding p by (auto split: if_splits option.splits list.splits)
  then show ?case
  proof cases
    case 1
    then show ?thesis by (rule Cons.IH)
  next
    case 2
    from Cons.IH[OF 2] show ?thesis by simp
  qed
qed

lemma resolve_row_size:
  "resolve_row order osec buckets rows = Inr (Some (nm, sl, buckets'))
   \<Longrightarrow> sum_list (map length buckets') < sum_list (map length buckets)"
proof (induction rows)
  case Nil
  then show ?case by simp
next
  case (Cons p rows)
  obtain i bucket where p: "p = (i, bucket)" by (cases p)
  from Cons.prems consider "resolve_row order osec buckets rows = Inr (Some (nm, sl, buckets'))"
    | b where "scan_deps i (name b) order osec (enumerate 0 buckets) [b] = Inr (Some sl)"
      "pop_slices buckets 0 sl = Inr buckets'"
    unfolding p by (auto split: list.splits sum.splits option.splits)
  then show ?case
  proof cases
    case 1
    then show ?thesis by (rule Cons.IH)
  next
    case 2
    from scan_deps_length[OF 2(1)] have "0 < length sl" by (cases sl) simp_all
    moreover note pop_slices_size[OF 2(2)]
    ultimately show ?thesis by linarith
  qed
qed

text \<open>
  The \<^verbatim>\<open>while\<close> loop of \<^verbatim>\<open>object_slices\<close>: as long as a bucket holds a slice, the next
  object is selected, and the assertion fails when none can be.
\<close>

function merge_buckets ::
  "string list \<Rightarrow> object_sections \<Rightarrow> Slice list list \<Rightarrow> (string option \<times> Slice list) list
     \<Rightarrow> error + (string option \<times> Slice list) list" where
  "merge_buckets order osec buckets objects =
     (if sum_list (map length buckets) > 0 then
        (case resolve_row order osec buckets (enumerate 0 buckets) of
           Inl e \<Rightarrow> Inl e
         | Inr None \<Rightarrow> Inl AssertionError
         | Inr (Some (nm, sl, buckets')) \<Rightarrow>
             merge_buckets order osec buckets' (dict_set nm sl objects))
      else Inr objects)"
  by pat_completeness auto

termination merge_buckets
  by (relation "measure (\<lambda>(order, osec, buckets, objects). sum_list (map length buckets))")
     (auto dest: resolve_row_size)

declare merge_buckets.simps [simp del]

text \<open>
  \<^verbatim>\<open>object_slices\<close>: one empty bucket for each section of \<open>order\<close>, the first loop, each
  bucket sorted by \<^verbatim>\<open>start\<close> (the sort is stable), then the \<^verbatim>\<open>while\<close> loop. The result is
  the dict of the objects in insertion order.
\<close>

definition object_slices ::
  "SliceTable \<Rightarrow> string list \<Rightarrow> error + (string option \<times> Slice list) list" where
  "object_slices T order =
     (case fill_buckets order (slices T) (replicate (length order) []) Map.empty of
        Inl e \<Rightarrow> Inl e
      | Inr (buckets, osec) \<Rightarrow> merge_buckets order osec (map (sort_key start) buckets) [])"

section \<open>The tabular format\<close>

text \<open>
  The file is kept as the list of its rows, each row the list of its fields: what
  \<^verbatim>\<open>csv.writer\<close> is given row by row and what \<^verbatim>\<open>csv.reader\<close> gives back. The quoting that
  the \<^verbatim>\<open>csv\<close> module does in between is not part of the model.
\<close>

subsection \<open>hex, strip and int\<close>











subsection \<open>The writer\<close>









subsection \<open>The reader\<close>











subsection \<open>Notions for the round trip\<close>





section \<open>Facts about tilings\<close>

lemma chain_append:
  "chain a (xs @ ys) b \<longleftrightarrow> (\<exists>m. chain a xs m \<and> chain m ys b)"
  by (induction xs arbitrary: a) auto

lemma chain_le: "chain a ss b \<Longrightarrow> a \<le> b"
proof (induction ss arbitrary: a)
  case Nil
  then show ?case by simp
next
  case (Cons t ss)
  then have "stop t \<le> b" "a < stop t" by auto
  then show ?case by simp
qed

lemma chain_bounds:
  "chain a ss b \<Longrightarrow> s \<in> set ss \<Longrightarrow> a \<le> start s \<and> start s < stop s \<and> stop s \<le> b"
proof (induction ss arbitrary: a)
  case Nil
  then show ?case by simp
next
  case (Cons t ss)
  from Cons.prems have c: "chain (stop t) ss b" and t: "start t = a" "start t < stop t" by auto
  show ?case
  proof (cases "s = t")
    case True
    with chain_le[OF c] t show ?thesis by simp
  next
    case False
    with Cons.prems have "s \<in> set ss" by simp
    from Cons.IH[OF c this] t show ?thesis by simp
  qed
qed

lemma chain_find:
  "chain a ss b \<Longrightarrow> a \<le> x \<Longrightarrow> x < b \<Longrightarrow>
     \<exists>pre t post. ss = pre @ t # post \<and> chain a pre (start t) \<and> start t < stop t
        \<and> chain (stop t) post b \<and> start t \<le> x \<and> x < stop t"
proof (induction ss arbitrary: a)
  case Nil
  then show ?case by simp
next
  case (Cons u ss)
  from Cons.prems have c: "chain (stop u) ss b" and u: "start u = a" "start u < stop u" by auto
  show ?case
  proof (cases "x < stop u")
    case True
    have "u # ss = [] @ u # ss \<and> chain a [] (start u) \<and> start u < stop u
        \<and> chain (stop u) ss b \<and> start u \<le> x \<and> x < stop u"
      using True c u Cons.prems by simp
    then show ?thesis by blast
  next
    case False
    then have "stop u \<le> x" by simp
    from Cons.IH[OF c this Cons.prems(3)] obtain pre t post where
      p: "ss = pre @ t # post" "chain (stop u) pre (start t)" "start t < stop t"
         "chain (stop t) post b" "start t \<le> x" "x < stop t" by blast
    have "u # ss = (u # pre) @ t # post \<and> chain a (u # pre) (start t) \<and> start t < stop t
        \<and> chain (stop t) post b \<and> start t \<le> x \<and> x < stop t"
      using p u by simp
    then show ?thesis by blast
  qed
qed

section \<open>bisect on a list with a partition point\<close>

lemma bisect_right_loop_point:
  "lo \<le> k \<Longrightarrow> k \<le> hi \<Longrightarrow> hi \<le> length a \<Longrightarrow>
   (\<And>i. i < k \<Longrightarrow> \<not> slice_lt x (a ! i)) \<Longrightarrow>
   (\<And>i. k \<le> i \<Longrightarrow> i < length a \<Longrightarrow> slice_lt x (a ! i)) \<Longrightarrow>
   bisect_right_loop a x lo hi = k"
proof (induction a x lo hi rule: bisect_right_loop.induct)
  case (1 a x lo hi)
  let ?mid = "(lo + hi) div 2"
  show ?case
  proof (cases "lo < hi")
    case False
    with "1.prems" show ?thesis by simp
  next
    case True
    then have m: "lo \<le> ?mid" "?mid < hi" by auto
    show ?thesis
    proof (cases "slice_lt x (a ! ?mid)")
      case lt: True
      have "?mid \<ge> k"
      proof (rule ccontr)
        assume "\<not> k \<le> ?mid"
        then have "?mid < k" by simp
        from "1.prems"(4)[OF this] lt show False by simp
      qed
      from "1.IH"(1)[OF True lt "1.prems"(1) this _ "1.prems"(4) "1.prems"(5)] m "1.prems"(3)
      have "bisect_right_loop a x lo ?mid = k" by simp
      with True lt show ?thesis by simp
    next
      case nlt: False
      have "?mid < k"
      proof (rule ccontr)
        assume "\<not> ?mid < k"
        then have "k \<le> ?mid" by simp
        from "1.prems"(5)[OF this] m "1.prems"(3) nlt show False by simp
      qed
      then have "?mid + 1 \<le> k" by simp
      from "1.IH"(2)[OF True nlt this "1.prems"(2) "1.prems"(3) "1.prems"(4) "1.prems"(5)]
      have "bisect_right_loop a x (?mid + 1) hi = k" by simp
      with True nlt show ?thesis by simp
    qed
  qed
qed


lemma bisect_tiled:
  assumes "chain a pre (start t)" "chain (stop t) post b" "start t < stop t"
    and "start t \<le> start x" "start x < stop t"
  shows "bisect (pre @ t # post) x = Suc (length pre)"
  unfolding bisect_def
proof (rule bisect_right_loop_point)
  fix i assume i: "i < Suc (length pre)"
  show "\<not> slice_lt x ((pre @ t # post) ! i)"
  proof (cases "i < length pre")
    case True
    then have "pre ! i \<in> set pre" by simp
    from chain_bounds[OF assms(1) this] assms(4) True show ?thesis
      by (simp add: slice_lt_def slice_gt_def nth_append)
  next
    case False
    with i have "i = length pre" by simp
    with assms(4) show ?thesis by (simp add: slice_lt_def slice_gt_def)
  qed
next
  fix i assume i: "Suc (length pre) \<le> i" "i < length (pre @ t # post)"
  then have "(pre @ t # post) ! i = post ! (i - Suc (length pre))" "i - Suc (length pre) < length post"
    by (auto simp: nth_append nth_Cons')
  moreover from this have "post ! (i - Suc (length pre)) \<in> set post" by simp
  ultimately show "slice_lt x ((pre @ t # post) ! i)"
    using chain_bounds[OF assms(2)] assms(5) by (fastforce simp: slice_lt_def slice_gt_def)
qed simp_all

lemma py_index_eq: "i = int n \<Longrightarrow> n < length xs \<Longrightarrow> py_index xs i = Inr n"
  by (simp add: py_index_def)

lemma py_insert_eq: "i = int n \<Longrightarrow> py_insert xs i v = insert_at xs n v"
  by (simp add: py_insert_def)

lemma insert_at_append: "insert_at (pre @ ys) (length pre + k) v = pre @ insert_at ys k v"
  by (simp add: insert_at_def)

lemma add_at:
  assumes ss: "slices T = pre @ t # post"
    and c: "chain a pre (start t)" "chain (stop t) post b" "start t < stop t"
    and x: "start t \<le> start r" "start r < stop t"
    and r: "start r < stop r" "table_contains T r"
  shows "add T r =
     (if stop r - start r > maxsize then Inl OverflowError
      else if name t = None \<and> contains_slice t r then
        Inr (T\<lparr>slices := pre @ (if start t < start r then [gap (start t) (start r)] else [])
                 @ [r] @ (if stop r < stop t then [gap (stop r) (stop t)] else []) @ post\<rparr>)
      else Inl AssertionError)"
proof -
  let ?n = "length pre"
  have b: "int (bisect (pre @ t # post) r) - 1 = int ?n"
    by (simp add: bisect_tiled[OF c x])
  have i0: "py_index (pre @ t # post) (int ?n) = Inr ?n"
    by (rule py_index_eq) simp_all
  have i1: "py_index (pre @ g # t # post) (1 + int ?n) = Inr (?n + 1)"
           "py_index (pre @ g # t # post) (int ?n + 1) = Inr (?n + 1)" for g
    by (rule py_index_eq; simp)+
  have ins: "py_insert (pre @ t # post) (int ?n) g = pre @ g # t # post" for g
    using insert_at_append[of pre "t # post" 0 g] by (simp add: py_insert_eq insert_at_def)
  have ia2: "insert_at (pre @ g # r # post) (Suc (Suc ?n)) h = pre @ g # r # h # post" for g h
    using insert_at_append[of pre "g # r # post" 2 h] by (simp add: insert_at_def)
  have ia1: "insert_at (pre @ r # post) (Suc ?n) h = pre @ r # h # post" for h
    using insert_at_append[of pre "r # post" 1 h] by (simp add: insert_at_def)
  have ins2: "py_insert (pre @ g # r # post) (1 + int ?n + 1) h = pre @ g # r # h # post"
             "py_insert (pre @ g # r # post) (int ?n + 1 + 1) h = pre @ g # r # h # post"
             "py_insert (pre @ g # r # post) (2 + int ?n) h = pre @ g # r # h # post"
             "py_insert (pre @ g # r # post) (int ?n + 2) h = pre @ g # r # h # post" for g h
    by (simp_all add: py_insert_eq[where n = "?n + 2"] ia2)
  have ins3: "py_insert (pre @ r # post) (1 + int ?n) h = pre @ r # h # post"
             "py_insert (pre @ r # post) (int ?n + 1) h = pre @ r # h # post" for h
    by (simp_all add: py_insert_eq[where n = "?n + 1"] ia1)
  have u1: "(pre @ g # t # post)[?n + 1 := r] = pre @ g # r # post"
           "(pre @ g # t # post)[Suc ?n := r] = pre @ g # r # post" for g
    by (simp_all add: list_update_append)
  have u0: "(pre @ t # post)[?n := r] = pre @ r # post"
    by (simp add: list_update_append)
  show ?thesis
    unfolding add_def Let_def ss b
    using r
    by (simp add: len_slice_def i0 i1 ins ins2 ins3 u0 u1)
qed


lemma chain_unique_owner:
  assumes ss: "ss = pre @ t # post"
    and c: "chain a pre (start t)" "chain (stop t) post b"
    and x: "start t \<le> x" "x < stop t"
    and j: "j < length ss" "contains_addr (ss ! j) x"
  shows "j = length pre"
proof (rule ccontr)
  assume n: "j \<noteq> length pre"
  show False
  proof (cases "j < length pre")
    case True
    then have "pre ! j \<in> set pre" by simp
    from chain_bounds[OF c(1) this] x(1) j(2) True show False
      by (simp add: ss nth_append contains_addr_def)
  next
    case False
    with n j(1) have k: "ss ! j = post ! (j - Suc (length pre))" "j - Suc (length pre) < length post"
      by (auto simp: ss nth_append nth_Cons')
    then have "post ! (j - Suc (length pre)) \<in> set post" by simp
    from chain_bounds[OF c(2) this] x(2) j(2) k(1) show False
      by (simp add: contains_addr_def)
  qed
qed

section \<open>Facts about find and the merges\<close>

lemma find_from_at:
  "\<forall>s\<in>set pre. \<not> contains_addr s x \<Longrightarrow> contains_addr r x \<Longrightarrow>
     find_from (pre @ r # post) x n = Some (r, n + length pre)"
  by (induction pre arbitrary: n) auto

lemma merge_left_at:
  assumes g: "\<not> has_name g"
  shows "merge_left (pre @ g # post) (length pre) =
     (if pre \<noteq> [] \<and> \<not> has_name (last pre)
      then Inr (butlast pre @ (last pre)\<lparr>stop := stop g\<rparr> # post, length pre - 1)
      else Inr (pre @ g # post, length pre))"
proof (cases pre rule: rev_cases)
  case Nil
  with g show ?thesis by (simp add: merge_left_def)
next
  case (snoc ys y)
  have "(ys @ y # g # post)[length ys := y\<lparr>stop := stop g\<rparr>] = ys @ y\<lparr>stop := stop g\<rparr> # g # post"
    by (simp add: list_update_append)
  moreover have "list_pop (ys @ z # g # post) (Suc (length ys)) = ys @ z # post" for z
    by (simp add: list_pop_def)
  ultimately show ?thesis using g snoc
    by (simp add: merge_left_def nth_append)
qed

lemma merge_right_at:
  assumes g: "\<not> has_name g"
  shows "merge_right (pre @ g # post) (length pre) =
     (case post of
        [] \<Rightarrow> Inr (pre @ [g], length pre)
      | p # ps \<Rightarrow>
          if \<not> has_name p then Inr (pre @ p\<lparr>start := start g\<rparr> # ps, length pre)
          else Inr (pre @ g # post, length pre))"
proof (cases post)
  case Nil
  with g show ?thesis by (simp add: merge_right_def)
next
  case (Cons p ps)
  have "(pre @ g # p # ps)[Suc (length pre) := z] = pre @ g # z # ps" for z
    by (simp add: list_update_append)
  moreover have "list_pop (pre @ g # z # ps) (length pre) = pre @ z # ps" for z
    by (simp add: list_pop_def)
  ultimately show ?thesis using g Cons
    by (simp add: merge_right_def nth_append)
qed

lemma remove_slice_exact:
  "start t = a \<Longrightarrow> stop t = b \<Longrightarrow> a < b \<Longrightarrow>
   remove_slice (pre @ t # post) (length pre) a b =
     (case merge_left (pre @ t\<lparr>name := None\<rparr> # post) (length pre) of
        Inl e \<Rightarrow> Inl e
      | Inr (ss2, idx2) \<Rightarrow> merge_right ss2 idx2)"
  by (simp add: remove_slice_def list_update_append)

lemma no_adjacent_gaps_around:
  "no_adjacent_gaps (pre @ t # post) \<Longrightarrow> name t = None \<Longrightarrow>
     (pre \<noteq> [] \<longrightarrow> has_name (last pre)) \<and> (post \<noteq> [] \<longrightarrow> has_name (hd post))"
proof (induction pre rule: no_adjacent_gaps.induct)
  case (1 a b ss)
  then show ?case by (cases ss) (auto simp: has_name_def)
next
  case (2 a)
  then show ?case by (cases post) (auto simp: has_name_def)
next
  case 3
  then show ?case by (cases post) (auto simp: has_name_def)
qed


lemma add_Inr_pre:
  "add T r = Inr T' \<Longrightarrow> start r < stop r \<and> table_contains T r \<and> \<not> stop r - start r > maxsize"
  by (auto simp: add_def len_slice_def split: if_splits sum.splits)

lemma remove_loop_stop:
  "\<not> (idx < length ss \<and> start (ss ! idx) < stp) \<Longrightarrow> remove_loop ss idx strt stp = Inr ss"
  by (subst remove_loop.simps) auto

section \<open>Facts about slice\<close>

lemma chain_filter_ge:
  assumes "chain cur ss b" "stp \<le> cur"
  shows "filter (\<lambda>s. start s < stp) ss = []"
proof -
  have "\<not> start s < stp" if "s \<in> set ss" for s
    using chain_bounds[OF assms(1) that] assms(2) by simp
  then show ?thesis by (simp add: filter_empty_conv)
qed

lemma add_at_end:
  assumes c: "chain strt dn cur" and lt: "cur < stp" and r: "start r = cur" "cur < stop r" "stop r \<le> stp"
    and s: "strt \<le> cur" and fit: "stop r - start r \<le> maxsize"
  shows "add \<lparr>slices = dn @ [gap cur stp], t_start = strt, t_stop = stp\<rparr> r
     = Inr \<lparr>slices = dn @ [r] @ (if stop r < stp then [gap (stop r) stp] else []),
            t_start = strt, t_stop = stp\<rparr>"
proof -
  let ?nt = "\<lparr>slices = dn @ [gap cur stp], t_start = strt, t_stop = stp\<rparr>"
  have 1: "slices ?nt = dn @ gap cur stp # []" by simp
  have 2: "chain strt dn (start (gap cur stp))" using c by (simp add: gap_def)
  have 3: "chain (stop (gap cur stp)) [] stp" by (simp add: gap_def)
  have 4: "start (gap cur stp) < stop (gap cur stp)" using lt by (simp add: gap_def)
  have 5: "start (gap cur stp) \<le> start r" "start r < stop (gap cur stp)"
    using r lt by (simp_all add: gap_def)
  have 6: "start r < stop r" using r by simp
  have 7: "table_contains ?nt r" using r s by (simp add: table_contains_def)
  show ?thesis
    using add_at[OF 1 2 3 4 5 6 7] r fit
    by (simp add: gap_def contains_slice_def)
qed

lemma slice_loop_rest:
  assumes "chain strt dn cur" "strt \<le> cur" "cur \<le> stp" "chain cur ss b"
    and "\<forall>s \<in> set ss. min stp (stop s) - max strt (start s) \<le> maxsize"
  shows "slice_loop \<lparr>slices = dn @ (if cur < stp then [gap cur stp] else []),
                     t_start = strt, t_stop = stp\<rparr> ss strt stp
     = Inr \<lparr>slices = dn @ map (clip strt stp) (filter (\<lambda>s. start s < stp) ss)
                     @ (if b < stp then [gap b stp] else []),
            t_start = strt, t_stop = stp\<rparr>"
  using assms
proof (induction ss arbitrary: dn cur)
  case Nil
  then show ?case by simp
next
  case (Cons s ss)
  from Cons.prems(4) have s: "start s = cur" "start s < stop s" and c': "chain (stop s) ss b"
    by simp_all
  from chain_le[OF c'] have sb: "stop s \<le> b" .
  from Cons.prems(5) have fs: "min stp (stop s) - max strt (start s) \<le> maxsize"
    and fss: "\<forall>s \<in> set ss. min stp (stop s) - max strt (start s) \<le> maxsize"
    by simp_all
  show ?case
  proof (cases "cur < stp")
    case False
    with Cons.prems(3) have e: "cur = stp" by simp
    have "filter (\<lambda>s. start s < stp) (s # ss) = []"
      by (rule chain_filter_ge[OF Cons.prems(4)]) (simp add: e)
    moreover have "\<not> b < stp" using sb s e by simp
    ultimately show ?thesis using s e Cons.prems(2) by simp
  next
    case lt: True
    have ns: "\<not> start s < strt" using s Cons.prems(2) by simp
    show ?thesis
    proof (cases "stop s > stp")
      case True
      have f: "filter (\<lambda>s. start s < stp) ss = []"
        by (rule chain_filter_ge[OF c']) (use True in simp)
      have cl: "clip strt stp s = s\<lparr>stop := stp\<rparr>"
        using True ns by (simp add: clip_def max_def min_def)
      have fit: "stop (s\<lparr>stop := stp\<rparr>) - start (s\<lparr>stop := stp\<rparr>) \<le> maxsize"
        using fs True ns by auto
      have "add \<lparr>slices = dn @ [gap cur stp], t_start = strt, t_stop = stp\<rparr> (s\<lparr>stop := stp\<rparr>)
          = Inr \<lparr>slices = dn @ [s\<lparr>stop := stp\<rparr>], t_start = strt, t_stop = stp\<rparr>"
        using add_at_end[OF Cons.prems(1) lt _ _ _ _ fit] s lt Cons.prems(2) by simp
      moreover have "\<not> b < stp" using sb True by simp
      ultimately show ?thesis using True lt ns s f cl
        by (simp add: copy_slice_def)
    next
      case False
      then have le: "stop s \<le> stp" by simp
      have cl: "clip strt stp s = s"
        using le ns by (simp add: clip_def max_def min_def)
      have fit: "stop s - start s \<le> maxsize"
        using fs le ns by auto
      have a: "add \<lparr>slices = dn @ [gap cur stp], t_start = strt, t_stop = stp\<rparr> s
          = Inr \<lparr>slices = (dn @ [s]) @ (if stop s < stp then [gap (stop s) stp] else []),
                 t_start = strt, t_stop = stp\<rparr>"
        using add_at_end[OF Cons.prems(1) lt _ _ _ _ fit] s le Cons.prems(2) by simp
      have c2: "chain strt (dn @ [s]) (stop s)"
        using Cons.prems(1) s by (auto simp: chain_append)
      have "strt \<le> stop s" using s Cons.prems(2) by simp
      from Cons.IH[OF c2 this le c' fss]
      have "slice_loop \<lparr>slices = (dn @ [s]) @ (if stop s < stp then [gap (stop s) stp] else []),
                     t_start = strt, t_stop = stp\<rparr> ss strt stp
         = Inr \<lparr>slices = (dn @ [s]) @ map (clip strt stp) (filter (\<lambda>s. start s < stp) ss)
                     @ (if b < stp then [gap b stp] else []),
            t_start = strt, t_stop = stp\<rparr>" .
      with a False lt ns s cl show ?thesis
        by (simp del: append_assoc)
    qed
  qed
qed


lemma find_from_Some:
  "find_from ss x n = Some (s, i) \<Longrightarrow>
     \<exists>pre post. ss = pre @ s # post \<and> i = n + length pre \<and> contains_addr s x"
proof (induction ss arbitrary: n)
  case Nil
  then show ?case by simp
next
  case (Cons u ss)
  show ?case
  proof (cases "contains_addr u x")
    case True
    with Cons.prems have "u # ss = [] @ s # ss \<and> i = n + length ([]::Slice list) \<and> contains_addr s x"
      by simp
    then show ?thesis by blast
  next
    case False
    with Cons.prems have "find_from ss x (Suc n) = Some (s, i)" by simp
    from Cons.IH[OF this] obtain pre post where
      "ss = pre @ s # post" "i = Suc n + length pre" "contains_addr s x" by blast
    then have "u # ss = (u # pre) @ s # post \<and> i = n + length (u # pre) \<and> contains_addr s x"
      by simp
    then show ?thesis by blast
  qed
qed

lemma find_from_None:
  "find_from ss x n = None \<Longrightarrow> s \<in> set ss \<Longrightarrow> \<not> contains_addr s x"
  by (induction ss arbitrary: n) (auto split: if_splits)

lemma slice_cases:
  assumes t: "tiled T" and lt: "strt < stp"
    and fit: "\<forall>s \<in> set (slices T). min stp (stop s) - max strt (start s) \<le> maxsize"
  shows "(\<forall>s \<in> set (slices T). \<not> contains_addr s strt) \<longrightarrow> slice T strt stp = Inl AssertionError"
    and "(\<exists>s \<in> set (slices T). contains_addr s strt) \<longrightarrow>
       slice T strt stp =
         Inr \<lparr>slices = map (clip strt stp)
                          (filter (\<lambda>s. strt < stop s \<and> start s < stp) (slices T))
                        @ (if t_stop T < stp then [gap (t_stop T) stp] else []),
              t_start = strt, t_stop = stp\<rparr>"
proof -
  show "(\<forall>s \<in> set (slices T). \<not> contains_addr s strt) \<longrightarrow> slice T strt stp = Inl AssertionError"
  proof
    assume n: "\<forall>s \<in> set (slices T). \<not> contains_addr s strt"
    have "find_slice T strt = None"
    proof (cases "find_slice T strt")
      case None then show ?thesis .
    next
      case (Some a)
      obtain s i where "a = (s, i)" by (cases a)
      with Some find_from_Some[of "slices T" strt 0 s i] n show ?thesis
        by (auto simp: find_slice_def)
    qed
    then show "slice T strt stp = Inl AssertionError" by (simp add: slice_def)
  qed
next
  show "(\<exists>s \<in> set (slices T). contains_addr s strt) \<longrightarrow>
       slice T strt stp =
         Inr \<lparr>slices = map (clip strt stp)
                          (filter (\<lambda>s. strt < stop s \<and> start s < stp) (slices T))
                        @ (if t_stop T < stp then [gap (t_stop T) stp] else []),
              t_start = strt, t_stop = stp\<rparr>"
  proof
    assume ex: "\<exists>s \<in> set (slices T). contains_addr s strt"
    from t have c: "chain (t_start T) (slices T) (t_stop T)" by (simp add: tiled_def)
    from ex find_from_None[of "slices T" strt 0] obtain u i where
      f: "find_slice T strt = Some (u, i)"
      by (cases "find_slice T strt") (auto simp: find_slice_def)
    from find_from_Some[OF f[unfolded find_slice_def]] obtain pre post where
      p: "slices T = pre @ u # post" "i = length pre" "contains_addr u strt" by auto
    from c[unfolded p(1) chain_append] obtain m where
      cp: "chain (t_start T) pre m" and cm: "chain m (u # post) (t_stop T)" by blast
    from cm have u: "start u = m" "start u < stop u" and cq: "chain (stop u) post (t_stop T)"
      by simp_all
    from p(3) have us: "start u \<le> strt" "strt < stop u" by (simp_all add: contains_addr_def)
    have dr: "drop i (slices T) = u # post" by (simp add: p)
    from fit have fu: "min stp (stop u) - max strt (start u) \<le> maxsize"
      and fp: "\<forall>s \<in> set post. min stp (stop s) - max strt (start s) \<le> maxsize"
      by (simp_all add: p(1))
    define u1 where "u1 = (if start u < strt then u\<lparr>start := strt\<rparr> else u)"
    have u1: "start u1 = strt" "stop u1 = stop u" using us by (auto simp: u1_def)
    have first: "(if start u < strt
            then (case copy_slice u of Inl e \<Rightarrow> Inl e | Inr c \<Rightarrow> Inr (c\<lparr>start := strt\<rparr>))
            else Inr u) = Inr u1"
      using u by (simp add: u1_def copy_slice_def)
    have step: "slice_loop nt (u # post) strt stp =
        (if stop u > stp then add nt (u1\<lparr>stop := stp\<rparr>)
         else (case add nt u1 of Inl e \<Rightarrow> Inl e | Inr nt' \<Rightarrow> slice_loop nt' post strt stp))" for nt
      using lt u1 by (simp add: first copy_slice_def)
    have fpre: "filter (\<lambda>s. strt < stop s \<and> start s < stp) pre = []"
    proof -
      have "\<not> strt < stop s" if "s \<in> set pre" for s
        using chain_bounds[OF cp that] u us by simp
      then show ?thesis by (simp add: filter_empty_conv)
    qed
    have fpost: "filter (\<lambda>s. strt < stop s \<and> start s < stp) post = filter (\<lambda>s. start s < stp) post"
    proof (rule filter_cong[OF refl])
      fix s assume "s \<in> set post"
      from chain_bounds[OF cq this] us show "(strt < stop s \<and> start s < stp) = (start s < stp)"
        by auto
    qed
    have nt: "new_table strt stp = Inr \<lparr>slices = [] @ [gap strt stp], t_start = strt, t_stop = stp\<rparr>"
      using lt by (simp add: new_table_def)
    let ?nt = "\<lparr>slices = [] @ [gap strt stp], t_start = strt, t_stop = stp\<rparr>"
    have loop: "slice_loop ?nt (u # post) strt stp =
         Inr \<lparr>slices = map (clip strt stp)
                          (filter (\<lambda>s. strt < stop s \<and> start s < stp) (slices T))
                        @ (if t_stop T < stp then [gap (t_stop T) stp] else []),
              t_start = strt, t_stop = stp\<rparr>"
    proof (cases "stop u > stp")
      case True
      have cl: "clip strt stp u = u1\<lparr>stop := stp\<rparr>"
        using True us by (auto simp: clip_def max_def min_def u1_def)
      have f: "filter (\<lambda>s. start s < stp) post = []"
        by (rule chain_filter_ge[OF cq]) (use True in simp)
      have fit1: "stop (u1\<lparr>stop := stp\<rparr>) - start (u1\<lparr>stop := stp\<rparr>) \<le> maxsize"
        using fu True us u1 by auto
      have a: "add ?nt (u1\<lparr>stop := stp\<rparr>) = Inr \<lparr>slices = [] @ [u1\<lparr>stop := stp\<rparr>], t_start = strt, t_stop = stp\<rparr>"
        using add_at_end[of strt "[]" strt stp "u1\<lparr>stop := stp\<rparr>", OF _ _ _ _ _ _ fit1] lt u1
        by simp
      have "\<not> t_stop T < stp" using chain_le[OF cq] True by simp
      have st: "strt < stop u \<and> start u < stp" using us lt True by simp
      from a True \<open>\<not> t_stop T < stp\<close> st show ?thesis
        unfolding p(1) step
        by (simp add: fpre fpost f cl)
    next
      case False
      then have le: "stop u \<le> stp" by simp
      have cl: "clip strt stp u = u1"
        using le us by (auto simp: clip_def max_def min_def u1_def)
      have fit1: "stop u1 - start u1 \<le> maxsize"
        using fu le us u1 by auto
      have a: "add ?nt u1
          = Inr \<lparr>slices = [u1] @ (if stop u < stp then [gap (stop u) stp] else []),
                 t_start = strt, t_stop = stp\<rparr>"
        using add_at_end[of strt "[]" strt stp u1, OF _ _ _ _ _ _ fit1] lt u1 us le by simp
      have c1: "chain strt [u1] (stop u)" using us u1 by auto
      have "strt \<le> stop u" using us by simp
      from slice_loop_rest[OF c1 this le cq fp]
      have r: "slice_loop \<lparr>slices = [u1] @ (if stop u < stp then [gap (stop u) stp] else []),
                     t_start = strt, t_stop = stp\<rparr> post strt stp
         = Inr \<lparr>slices = [u1] @ map (clip strt stp) (filter (\<lambda>s. start s < stp) post)
                     @ (if t_stop T < stp then [gap (t_stop T) stp] else []),
            t_start = strt, t_stop = stp\<rparr>" .
      have st: "strt < stop u \<and> start u < stp" using us lt by simp
      have "slice_loop ?nt (u # post) strt stp =
          slice_loop \<lparr>slices = [u1] @ (if stop u < stp then [gap (stop u) stp] else []),
                     t_start = strt, t_stop = stp\<rparr> post strt stp"
        unfolding step using a False by simp
      also note r
      finally show ?thesis
        unfolding p(1) using st by (simp add: fpre fpost cl)
    qed
    show "slice T strt stp =
         Inr \<lparr>slices = map (clip strt stp)
                          (filter (\<lambda>s. strt < stop s \<and> start s < stp) (slices T))
                        @ (if t_stop T < stp then [gap (t_stop T) stp] else []),
              t_start = strt, t_stop = stp\<rparr>"
      unfolding slice_def f dr[symmetric] using nt loop[folded dr] by simp
  qed
qed

section \<open>Facts about remove\<close>
















section \<open>Facts about object_slices\<close>

lemma fill_buckets_skip: "fill_buckets order (filter has_name ss) buckets osec = fill_buckets order ss buckets osec"
  by (induction ss arbitrary: buckets osec) (auto split: sum.splits)

lemma list_index_bound: "list_index xs x = Inr k \<Longrightarrow> k < length xs"
  by (induction xs arbitrary: k) (auto split: if_splits sum.splits)

lemma list_index_mem: "x \<in> set xs \<Longrightarrow> \<exists>k. list_index xs x = Inr k"
  by (induction xs) auto

lemma fill_buckets_eq:
  assumes "length buckets = length order"
    and "\<forall>s \<in> set ss. has_name s \<longrightarrow> section' s \<in> Some ` set order"
  shows "\<exists>osec'. fill_buckets order ss buckets osec =
           Inr (map (\<lambda>k. buckets ! k
                        @ filter (\<lambda>s. has_name s \<and> list_index (map Some order) (section' s) = Inr k) ss)
                  [0..<length buckets], osec')
         \<and> (\<forall>n. osec' n =
               (if \<exists>s \<in> set ss. has_name s \<and> name s = n
                then Some ((case osec n of None \<Rightarrow> {} | Some S \<Rightarrow> S)
                       \<union> section' ` {s \<in> set ss. has_name s \<and> name s = n})
                else osec n))"
  using assms
proof (induction ss arbitrary: buckets osec)
  case Nil
  have "map ((!) buckets) [0..<length buckets] = buckets" by (rule map_nth)
  then show ?case by simp
next
  case (Cons s ss)
  show ?case
  proof (cases "has_name s")
    case False
    with Cons.IH[of buckets osec] Cons.prems show ?thesis by auto
  next
    case True
    with Cons.prems have "section' s \<in> set (map Some order)" by auto
    from list_index_mem[OF this] obtain k where k: "list_index (map Some order) (section' s) = Inr k"
      by blast
    from list_index_bound[OF k] Cons.prems have kb: "k < length buckets" by simp
    let ?b = "buckets[k := buckets ! k @ [s]]"
    let ?o = "osec(name s \<mapsto> insert (section' s) (case osec (name s) of None \<Rightarrow> {} | Some S \<Rightarrow> S))"
    from Cons.prems have "length ?b = length order"
      "\<forall>s \<in> set ss. has_name s \<longrightarrow> section' s \<in> Some ` set order"
      by simp_all
    from Cons.IH[OF this, of ?o] obtain osec' where
      f: "fill_buckets order ss ?b ?o =
           Inr (map (\<lambda>k'. ?b ! k'
                        @ filter (\<lambda>s. has_name s \<and> list_index (map Some order) (section' s) = Inr k') ss)
                  [0..<length ?b], osec')"
      and o: "\<And>n. osec' n =
               (if \<exists>s \<in> set ss. has_name s \<and> name s = n
                then Some ((case ?o n of None \<Rightarrow> {} | Some S \<Rightarrow> S)
                       \<union> section' ` {s \<in> set ss. has_name s \<and> name s = n})
                else ?o n)"
      by blast
    have 1: "fill_buckets order (s # ss) buckets osec = fill_buckets order ss ?b ?o"
      using True k kb by simp
    have 2: "map (\<lambda>k'. ?b ! k'
                        @ filter (\<lambda>s. has_name s \<and> list_index (map Some order) (section' s) = Inr k') ss)
                  [0..<length ?b]
         = map (\<lambda>k'. buckets ! k'
                        @ filter (\<lambda>s. has_name s \<and> list_index (map Some order) (section' s) = Inr k') (s # ss))
                  [0..<length buckets]"
      using True k kb by (auto simp: nth_list_update)
    have 3: "osec' n =
               (if \<exists>s' \<in> set (s # ss). has_name s' \<and> name s' = n
                then Some ((case osec n of None \<Rightarrow> {} | Some S \<Rightarrow> S)
                       \<union> section' ` {s' \<in> set (s # ss). has_name s' \<and> name s' = n})
                else osec n)" for n
      unfolding o[of n] using True by (auto split: option.splits)
    from 1 2 f have 4: "fill_buckets order (s # ss) buckets osec =
           Inr (map (\<lambda>k'. buckets ! k'
                        @ filter (\<lambda>s. has_name s \<and> list_index (map Some order) (section' s) = Inr k') (s # ss))
                  [0..<length buckets], osec')"
      by (simp only:)
    show ?thesis
      by (rule exI[where x = osec'], rule conjI, rule 4, rule allI, rule 3)
  qed
qed

lemma two_elems:
  assumes "distinct xs" "set xs = {x, y}" "x \<noteq> y"
  shows "xs = [x, y] \<or> xs = [y, x]"
proof -
  from assms have "length xs = 2"
    using distinct_card[OF assms(1)] by simp
  then obtain u v where xs: "xs = [u, v]"
    by (cases xs; cases "tl xs") auto
  with assms(2) have "{u, v} = {x, y}" by simp
  with xs show ?thesis by (auto simp: doubleton_eq_iff)
qed

lemma upt_13: "[0..<13] = [0, 1, 2, 3, 4, 5, 6, 7, 8, 9, 10, 11, 12]"
  by code_simp

lemma index_text: "list_index (map Some SECTION_ORDER) (Some ''text'') = Inr 3"
  by code_simp

lemma index_data: "list_index (map Some SECTION_ORDER) (Some ''data'') = Inr 7"
  by code_simp

lemma sort_two: "start x < start y \<Longrightarrow> xs = [x, y] \<or> xs = [y, x] \<Longrightarrow> sort_key start xs = [x, y]"
  by auto

lemma merge_buckets_crossed:
  assumes "osec (Some a) = Some {Some ''text'', Some ''data''}"
    and "osec (Some b) = Some {Some ''text'', Some ''data''}"
    and "name At = Some a" "name Ad = Some a" "name Bt = Some b" "name Bd = Some b" "a \<noteq> b"
  shows "merge_buckets SECTION_ORDER osec
           [[], [], [], [At, Bt], [], [], [], [Bd, Ad], [], [], [], [], []] objects
         = Inl AssertionError"
proof -
  from assms(7) have "b \<noteq> a" by simp
  with assms show ?thesis
    by (subst merge_buckets.simps) (simp add: SECTION_ORDER_def)
qed

section \<open>Facts about the tabular format\<close>


































section \<open>Claims settled at a failing input\<close>

text \<open>
  C1 (partition invariant after add and remove). The fresh table over \<open>[0, 10)\<close>
  satisfies the partition invariants. \<^verbatim>\<open>remove(0, 5)\<close> on it takes the left part of its
  only gap: \<^verbatim>\<open>__remove_slice\<close> splits the gap into a gap and a remainder that is
  unnamed too, and merges to the left only. The table that results holds the two
  consecutive unnamed Regions \<open>[0, 5)\<close> and \<open>[5, 10)\<close>, so the invariants fail after one
  valid call.
\<close>

theorem remove_in_gap_leaves_adjacent_gaps:
  "new_table 0 10 = Inr \<lparr>slices = [gap 0 10], t_start = 0, t_stop = 10\<rparr>
   \<and> partition_inv \<lparr>slices = [gap 0 10], t_start = 0, t_stop = 10\<rparr>
   \<and> remove \<lparr>slices = [gap 0 10], t_start = 0, t_stop = 10\<rparr> 0 5
       = Inr \<lparr>slices = [gap 0 5, gap 5 10], t_start = 0, t_stop = 10\<rparr>
   \<and> \<not> no_adjacent_gaps [gap 0 5, gap 5 10]
   \<and> \<not> partition_inv \<lparr>slices = [gap 0 5, gap 5 10], t_start = 0, t_stop = 10\<rparr>"
  by code_simp

text \<open>
  C4 (idempotent removal). On the fresh table over \<open>[0, 10)\<close>, \<^verbatim>\<open>remove(0, 5)\<close> once
  gives the Regions \<open>[0, 5)\<close>, \<open>[5, 10)\<close>; the same call again finds the gap \<open>[0, 5)\<close> as an
  exact match and merges it with its right neighbour, giving the single Region
  \<open>[0, 10)\<close>. The two tables differ, also under \<^verbatim>\<open>Slice.__eq__\<close>, since their Region
  lists have different lengths.
\<close>

theorem remove_twice_differs_from_once:
  "remove \<lparr>slices = [gap 0 10], t_start = 0, t_stop = 10\<rparr> 0 5
       = Inr \<lparr>slices = [gap 0 5, gap 5 10], t_start = 0, t_stop = 10\<rparr>
   \<and> remove \<lparr>slices = [gap 0 5, gap 5 10], t_start = 0, t_stop = 10\<rparr> 0 5
       = Inr \<lparr>slices = [gap 0 10], t_start = 0, t_stop = 10\<rparr>
   \<and> \<not> list_all2 slice_eq [gap 0 5, gap 5 10] [gap 0 10]"
  by code_simp

text \<open>
  C8 (find_parent). In the table \<open>foo@[0, 5), gap@[5, 10)\<close> the Region \<open>[2, 4)\<close> lies
  within \<open>foo\<close>. \<^verbatim>\<open>find_parent\<close> searches with \<^verbatim>\<open>bisect_left\<close>, which gives the first
  Region that starts at or after 2, and returns the gap \<open>[5, 10)\<close>, which does not
  contain \<open>[2, 4)\<close>.
\<close>

theorem find_parent_returns_following_slice:
  "partition_inv \<lparr>slices = [named ''foo'' 0 5, gap 5 10], t_start = 0, t_stop = 10\<rparr>
   \<and> contains_slice (named ''foo'' 0 5) (gap 2 4)
   \<and> find_parent \<lparr>slices = [named ''foo'' 0 5, gap 5 10], t_start = 0, t_stop = 10\<rparr> (gap 2 4)
       = Some (gap 5 10)
   \<and> \<not> contains_slice (gap 5 10) (gap 2 4)"
  by code_simp

section \<open>sum_named_slices\<close>

lemma sum_named_not_AttributeError: "sum_named ss t \<noteq> Inl AttributeError"
  by (induction ss arbitrary: t) (auto simp: len_slice_def split: if_splits)

text \<open>
  C9 (sum_named_slices). The method reads the attribute \<^verbatim>\<open>segs\<close>, which is neither an
  instance attribute set by \<^verbatim>\<open>__init__\<close> nor an attribute of the class, so for every
  table the call raises \<open>AttributeError\<close>; in particular it never returns what the loop
  computes on the table's own Region list \<^verbatim>\<open>slices\<close>.
\<close>

theorem sum_named_slices_fails:
  "sum_named_slices T = Inl AttributeError \<and> sum_named_slices T \<noteq> sum_named (slices T) 0"
proof -
  have "sum_named_slices T = Inl AttributeError"
    by (simp add: sum_named_slices_def getattr_def class_attrs_def)
  then show ?thesis
    using sum_named_not_AttributeError [of "slices T" 0] by simp
qed


section \<open>add\<close>

text \<open>
  C2 as stated fails for a Region longer than \<^verbatim>\<open>sys.maxsize\<close>. The fresh table over
  \<open>[0, 2^64)\<close> satisfies the partition invariants, and the Region \<open>big@[0, 2^63)\<close> has
  positive length, lies within the table's bounds and is enclosed by the table's only
  Region, an unnamed gap. \<^verbatim>\<open>add\<close> fails all the same: its first statement takes
  \<^verbatim>\<open>len\<close> of the Region, which raises \<open>OverflowError\<close>.
\<close>

theorem add_overflows_on_long_region:
  "partition_inv \<lparr>slices = [gap 0 (2 ^ 64)], t_start = 0, t_stop = 2 ^ 64\<rparr>
   \<and> start (named ''big'' 0 (2 ^ 63)) < stop (named ''big'' 0 (2 ^ 63))
   \<and> table_contains \<lparr>slices = [gap 0 (2 ^ 64)], t_start = 0, t_stop = 2 ^ 64\<rparr>
        (named ''big'' 0 (2 ^ 63))
   \<and> contains_addr (gap 0 (2 ^ 64)) (start (named ''big'' 0 (2 ^ 63)))
   \<and> name (gap 0 (2 ^ 64)) = None
   \<and> contains_slice (gap 0 (2 ^ 64)) (named ''big'' 0 (2 ^ 63))
   \<and> add \<lparr>slices = [gap 0 (2 ^ 64)], t_start = 0, t_stop = 2 ^ 64\<rparr> (named ''big'' 0 (2 ^ 63))
       = Inl OverflowError"
  by code_simp

text \<open>
  C2 (amended). Let the table satisfy the partition invariants and let the Region \<open>r\<close>
  have positive length and lie within the table's bounds. Then exactly one Region of
  the table contains \<open>start r\<close>, the target, at some index \<open>i\<close>. If the length of \<open>r\<close>
  exceeds \<^verbatim>\<open>sys.maxsize\<close>, \<^verbatim>\<open>add\<close> fails with an overflow error. Otherwise, if the
  target is named or does not enclose \<open>r\<close>, \<^verbatim>\<open>add\<close> fails with an assertion error.
  Otherwise the new Region list is the old one with the target replaced by: a gap from
  the target's start to \<open>start r\<close> exactly when \<open>start target < start r\<close>, then \<open>r\<close>,
  then a gap from \<open>stop r\<close> to the target's stop exactly when \<open>stop r < stop target\<close>.
  The Regions before and after the target, and the table's bounds, are unchanged.
\<close>

theorem add_replaces_enclosing_gap:
  assumes "partition_inv T" and "start r < stop r"
    and "t_start T \<le> start r" and "stop r \<le> t_stop T"
  shows "\<exists>i < length (slices T).
     contains_addr (slices T ! i) (start r) \<and>
     (\<forall>j < length (slices T). contains_addr (slices T ! j) (start r) \<longrightarrow> j = i) \<and>
     add T r =
       (if stop r - start r > maxsize then Inl OverflowError
        else if name (slices T ! i) = None \<and> contains_slice (slices T ! i) r then
          Inr (T\<lparr>slices := take i (slices T)
                 @ (if start (slices T ! i) < start r
                    then [gap (start (slices T ! i)) (start r)] else [])
                 @ [r]
                 @ (if stop r < stop (slices T ! i)
                    then [gap (stop r) (stop (slices T ! i))] else [])
                 @ drop (Suc i) (slices T)\<rparr>)
        else Inl AssertionError)"
proof -
  from assms(1) have c: "chain (t_start T) (slices T) (t_stop T)"
    by (simp add: partition_inv_def tiled_def)
  from assms have "start r < t_stop T" by simp
  from chain_find[OF c assms(3) this] obtain pre t post where
    p: "slices T = pre @ t # post" "chain (t_start T) pre (start t)" "start t < stop t"
       "chain (stop t) post (t_stop T)" "start t \<le> start r" "start r < stop t" by blast
  let ?i = "length pre"
  have i: "?i < length (slices T)" "slices T ! ?i = t" "take ?i (slices T) = pre"
    "drop (Suc ?i) (slices T) = post"
    by (simp_all add: p(1))
  have tc: "table_contains T r" using assms by (simp add: table_contains_def)
  have 1: "contains_addr (slices T ! ?i) (start r)"
    using p by (simp add: i contains_addr_def)
  have 2: "\<forall>j < length (slices T). contains_addr (slices T ! j) (start r) \<longrightarrow> j = ?i"
    using chain_unique_owner[OF p(1) p(2) p(4) p(5) p(6)] by blast
  have 3: "add T r =
       (if stop r - start r > maxsize then Inl OverflowError
        else if name (slices T ! ?i) = None \<and> contains_slice (slices T ! ?i) r then
          Inr (T\<lparr>slices := take ?i (slices T)
                 @ (if start (slices T ! ?i) < start r
                    then [gap (start (slices T ! ?i)) (start r)] else [])
                 @ [r]
                 @ (if stop r < stop (slices T ! ?i)
                    then [gap (stop r) (stop (slices T ! ?i))] else [])
                 @ drop (Suc ?i) (slices T)\<rparr>)
        else Inl AssertionError)"
    unfolding i by (rule add_at[OF p(1) p(2) p(4) p(3) p(5) p(6) assms(2) tc])
  from i(1) 1 2 3 show ?thesis by blast
qed

theorem add_replaces_enclosing_gap_witness:
  "partition_inv \<lparr>slices = [gap 0 10], t_start = 0, t_stop = 10\<rparr>
   \<and> add \<lparr>slices = [gap 0 10], t_start = 0, t_stop = 10\<rparr> (named ''foo'' 2 5)
       = Inr \<lparr>slices = [gap 0 2, named ''foo'' 2 5, gap 5 10], t_start = 0, t_stop = 10\<rparr>
   \<and> add \<lparr>slices = [gap 0 2, named ''foo'' 2 5, gap 5 10], t_start = 0, t_stop = 10\<rparr> (named ''bar'' 4 7)
       = Inl AssertionError
   \<and> add \<lparr>slices = [gap 0 (2 ^ 64)], t_start = 0, t_stop = 2 ^ 64\<rparr> (named ''big'' 0 (2 ^ 63))
       = Inl OverflowError"
proof -
  let ?T = "\<lparr>slices = [gap 0 10], t_start = 0, t_stop = 10\<rparr>"
  let ?T' = "\<lparr>slices = [gap 0 2, named ''foo'' 2 5, gap 5 10], t_start = 0, t_stop = 10\<rparr>"
  let ?B = "\<lparr>slices = [gap 0 (2 ^ 64)], t_start = 0, t_stop = 2 ^ 64\<rparr>"
  have h: "partition_inv ?T" by code_simp
  have h': "partition_inv ?T'" by code_simp
  have hb: "partition_inv ?B" by code_simp
  from add_replaces_enclosing_gap[OF h, of "named ''foo'' 2 5"]
  have a: "add ?T (named ''foo'' 2 5) = Inr ?T'"
    by (simp add: named_def gap_def contains_slice_def contains_addr_def maxsize_def)
  from add_replaces_enclosing_gap[OF h', of "named ''bar'' 4 7"]
  have b: "add ?T' (named ''bar'' 4 7) = Inl AssertionError"
    by (auto simp: named_def gap_def contains_slice_def contains_addr_def maxsize_def
          less_Suc_eq nth_Cons')
  from add_replaces_enclosing_gap[OF hb, of "named ''big'' 0 (2 ^ 63)"]
  have c: "add ?B (named ''big'' 0 (2 ^ 63)) = Inl OverflowError"
    by (simp add: named_def gap_def maxsize_def)
  from h a b c show ?thesis by simp
qed

section \<open>remove after add\<close>

text \<open>
  C3 (insert/remove inverse). Let the table satisfy the partition invariants and let
  \<^verbatim>\<open>add(R)\<close> succeed. Then \<^verbatim>\<open>remove(R.start, R.stop)\<close> right after it succeeds, and the
  Region list it leaves equals the Region list before the insertion: the two lists have
  the same length and, position by position, Regions that are equal in the sense of
  \<^verbatim>\<open>Slice.__eq__\<close> (same start and stop) and carry the same name; the table's bounds are
  unchanged. (The restored gap is built from \<open>R\<close> or from a leftover gap, so equality
  is that of \<^verbatim>\<open>Slice.__eq__\<close> and of the names; the theorem holds for unnamed \<open>R\<close> too.)
\<close>

theorem remove_after_add_restores:
  assumes inv: "partition_inv T" and add: "add T r = Inr T'"
  shows "\<exists>T''. remove T' (start r) (stop r) = Inr T''
           \<and> list_all2 slice_eq (slices T'') (slices T)
           \<and> map name (slices T'') = map name (slices T)
           \<and> t_start T'' = t_start T \<and> t_stop T'' = t_stop T"
proof -
  from add_Inr_pre[OF add] have r: "start r < stop r" and tc: "table_contains T r" by simp_all
  from inv have c: "chain (t_start T) (slices T) (t_stop T)"
    and nag: "no_adjacent_gaps (slices T)"
    by (simp_all add: partition_inv_def tiled_def)
  from tc r have b: "t_start T \<le> start r" "start r < t_stop T" "stop r \<le> t_stop T"
    by (simp_all add: table_contains_def)
  from chain_find[OF c b(1) b(2)] obtain pre t post where
    p: "slices T = pre @ t # post" "chain (t_start T) pre (start t)" "start t < stop t"
       "chain (stop t) post (t_stop T)" "start t \<le> start r" "start r < stop t" by blast
  let ?L = "if start t < start r then [gap (start t) (start r)] else []"
  let ?R = "if stop r < stop t then [gap (stop r) (stop t)] else []"
  from add add_at[OF p(1) p(2) p(4) p(3) p(5) p(6) r tc]
  have t: "name t = None" "contains_slice t r"
    and T': "T' = T\<lparr>slices := pre @ ?L @ [r] @ ?R @ post\<rparr>"
    by (auto split: if_splits)
  from t(2) have rt: "stop r \<le> stop t" by (simp add: contains_slice_def)
  from no_adjacent_gaps_around[OF nag[unfolded p(1)] t(1)]
  have around: "pre \<noteq> [] \<longrightarrow> has_name (last pre)" "post \<noteq> [] \<longrightarrow> has_name (hd post)"
    by simp_all
  let ?P = "pre @ ?L" and ?Q = "?R @ post"
  have ss': "slices T' = ?P @ r # ?Q" by (simp add: T')
  \<comment> \<open>find locates r\<close>
  have "\<forall>s\<in>set ?P. \<not> contains_addr s (start r)"
    using chain_bounds[OF p(2)] p(5) by (fastforce simp: contains_addr_def gap_def)
  moreover have "contains_addr r (start r)" using r by (simp add: contains_addr_def)
  ultimately have f: "find_slice T' (start r) = Some (r, length ?P)"
    unfolding find_slice_def ss' using find_from_at[of ?P "start r" r ?Q 0] by simp
  \<comment> \<open>the exact-match case, merging to the left\<close>
  obtain g where g: "\<not> has_name g" "start g = start t" "stop g = stop r"
    and ml: "merge_left (?P @ r\<lparr>name := None\<rparr> # ?Q) (length ?P) = Inr (pre @ g # ?Q, length pre)"
  proof (cases "start t < start r")
    case True
    have "merge_left ((pre @ [gap (start t) (start r)]) @ r\<lparr>name := None\<rparr> # ?Q)
            (length (pre @ [gap (start t) (start r)]))
          = Inr (pre @ (gap (start t) (start r))\<lparr>stop := stop r\<rparr> # ?Q, length pre)"
      by (subst merge_left_at) (simp_all add: has_name_def gap_def)
    with True show ?thesis
      by (intro that[of "(gap (start t) (start r))\<lparr>stop := stop r\<rparr>"])
         (simp_all add: has_name_def gap_def)
  next
    case False
    with p(5) have e: "start r = start t" by simp
    have "merge_left (pre @ r\<lparr>name := None\<rparr> # ?Q) (length pre)
          = Inr (pre @ r\<lparr>name := None\<rparr> # ?Q, length pre)"
      using around(1) by (subst merge_left_at) (auto simp: has_name_def)
    with False e show ?thesis
      by (intro that[of "r\<lparr>name := None\<rparr>"]) (simp_all add: has_name_def)
  qed
  \<comment> \<open>merging to the right\<close>
  obtain g' where g': "name g' = None" "start g' = start t" "stop g' = stop t"
    and mr: "merge_right (pre @ g # ?Q) (length pre) = Inr (pre @ g' # post, length pre)"
  proof (cases "stop r < stop t")
    case True
    have "merge_right (pre @ g # gap (stop r) (stop t) # post) (length pre)
          = Inr (pre @ (gap (stop r) (stop t))\<lparr>start := start g\<rparr> # post, length pre)"
      using g(1) by (subst merge_right_at) (simp_all add: has_name_def gap_def)
    with True g show ?thesis
      by (intro that[of "(gap (stop r) (stop t))\<lparr>start := start g\<rparr>"])
         (simp_all add: has_name_def gap_def)
  next
    case False
    with rt have e: "stop r = stop t" by simp
    have "merge_right (pre @ g # post) (length pre) = Inr (pre @ g # post, length pre)"
      using g(1) around(2) by (subst merge_right_at) (auto split: list.splits)
    with False e g show ?thesis
      by (intro that[of g]) (simp_all add: has_name_def)
  qed
  have rs: "remove_slice (slices T') (length ?P) (start r) (stop r) = Inr (pre @ g' # post, length pre)"
    unfolding ss' using r ml mr by (subst remove_slice_exact) simp_all
  \<comment> \<open>the loop stops after one round\<close>
  have stop: "remove_loop (pre @ g' # post) (length pre + 1) (start r) (stop r) = Inr (pre @ g' # post)"
  proof (rule remove_loop_stop, cases post)
    case Nil
    then show "\<not> (length pre + 1 < length (pre @ g' # post)
        \<and> start ((pre @ g' # post) ! (length pre + 1)) < stop r)" by simp
  next
    case (Cons q qs)
    with p(4) have "start q = stop t" by simp
    with rt Cons show "\<not> (length pre + 1 < length (pre @ g' # post)
        \<and> start ((pre @ g' # post) ! (length pre + 1)) < stop r)"
      by (simp add: nth_append)
  qed
  have idx: "length ?P < length (slices T')" "slices T' ! length ?P = r"
    unfolding ss' by (simp_all only: nth_append_length) simp
  have "remove_loop (slices T') (length ?P) (start r) (stop r) = Inr (pre @ g' # post)"
    apply (subst remove_loop.simps)
    using idx r rs stop by simp
  with f b tc have "remove T' (start r) (stop r) = Inr (T'\<lparr>slices := pre @ g' # post\<rparr>)"
    by (simp add: remove_def T' table_contains_def Let_def del: remove_loop.simps)
  moreover have "list_all2 slice_eq (pre @ g' # post) (slices T)"
    unfolding p(1) using g' by (simp add: list_all2_appendI list_all2_refl slice_eq_def list.rel_refl)
  moreover have "map name (pre @ g' # post) = map name (slices T)"
    unfolding p(1) using g' t by simp
  ultimately show ?thesis by (simp add: T')
qed

theorem remove_after_add_restores_witness:
  "partition_inv \<lparr>slices = [gap 0 10], t_start = 0, t_stop = 10\<rparr>
   \<and> add \<lparr>slices = [gap 0 10], t_start = 0, t_stop = 10\<rparr> (named ''foo'' 2 5)
       = Inr \<lparr>slices = [gap 0 2, named ''foo'' 2 5, gap 5 10], t_start = 0, t_stop = 10\<rparr>
   \<and> (\<exists>T''. remove \<lparr>slices = [gap 0 2, named ''foo'' 2 5, gap 5 10], t_start = 0, t_stop = 10\<rparr>
                 (start (named ''foo'' 2 5)) (stop (named ''foo'' 2 5)) = Inr T''
           \<and> list_all2 slice_eq (slices T'') [gap 0 10]
           \<and> map name (slices T'') = [None])"
proof -
  let ?T = "\<lparr>slices = [gap 0 10], t_start = 0, t_stop = 10\<rparr>"
  let ?T' = "\<lparr>slices = [gap 0 2, named ''foo'' 2 5, gap 5 10], t_start = 0, t_stop = 10\<rparr>"
  have h: "partition_inv ?T" by code_simp
  have a: "add ?T (named ''foo'' 2 5) = Inr ?T'" by code_simp
  from remove_after_add_restores[OF h a] obtain T'' where
    "remove ?T' (start (named ''foo'' 2 5)) (stop (named ''foo'' 2 5)) = Inr T''"
    "list_all2 slice_eq (slices T'') (slices ?T)"
    "map name (slices T'') = map name (slices ?T)"
    by blast
  then have "remove ?T' (start (named ''foo'' 2 5)) (stop (named ''foo'' 2 5)) = Inr T''
      \<and> list_all2 slice_eq (slices T'') [gap 0 10] \<and> map name (slices T'') = [None]"
    by (simp add: gap_def)
  then have "\<exists>T''. remove ?T' (start (named ''foo'' 2 5)) (stop (named ''foo'' 2 5)) = Inr T''
      \<and> list_all2 slice_eq (slices T'') [gap 0 10] \<and> map name (slices T'') = [None]"
    by (rule exI)
  with h a show ?thesis by (intro conjI)
qed

section \<open>slice\<close>

text \<open>
  C7 as stated fails. In the table that holds the one Region \<open>foo@[0, 10)\<close>,
  \<^verbatim>\<open>slice(2, 5)\<close> cuts \<open>foo\<close> at both ends, and the Region of the new table is
  \<open>foo@[2, 5)\<close>: the copy keeps the name. And \<^verbatim>\<open>slice(5, 5)\<close> fails although 5 falls
  inside \<open>foo\<close>, since the constructor of the new table asserts \<open>start < stop\<close>.
\<close>

theorem slice_keeps_name_of_cut_region:
  "slice \<lparr>slices = [named ''foo'' 0 10], t_start = 0, t_stop = 10\<rparr> 2 5
     = Inr \<lparr>slices = [named ''foo'' 2 5], t_start = 2, t_stop = 5\<rparr>
   \<and> name (named ''foo'' 2 5) = Some ''foo''
   \<and> contains_addr (named ''foo'' 0 10) 5
   \<and> slice \<lparr>slices = [named ''foo'' 0 10], t_start = 0, t_stop = 10\<rparr> 5 5 = Inl AssertionError"
  by code_simp

text \<open>
  C7 (amended). Let the table's Regions tile its range (sorted, contiguous, of positive
  length, from \<open>t_start\<close> to \<open>t_stop\<close>), let \<open>strt < stp\<close>, and let no Region of the table
  keep more than \<^verbatim>\<open>sys.maxsize\<close> addresses once it is cut to the range (\<^verbatim>\<open>slice\<close> hands
  every cut Region to \<^verbatim>\<open>add\<close>, which takes its \<^verbatim>\<open>len\<close>). If \<open>strt\<close> falls inside a
  Region of the table, \<^verbatim>\<open>slice(strt, stp)\<close> returns a new table with the bounds
  \<open>[strt, stp)\<close> whose Regions are the Regions of the table that meet the range, in
  order, each cut to the range by \<open>clip\<close>, which changes the bounds only: a cut Region
  keeps its name, section and tags. When \<open>stp\<close> lies past the table's end, a gap from
  the table's end to \<open>stp\<close> follows. If \<open>strt\<close> falls inside no Region, \<^verbatim>\<open>slice\<close> fails.
\<close>

theorem slice_cuts_and_keeps_names:
  assumes "tiled T" and "strt < stp"
    and "\<forall>s \<in> set (slices T). min stp (stop s) - max strt (start s) \<le> maxsize"
  shows "slice T strt stp =
     (if \<exists>s \<in> set (slices T). contains_addr s strt then
        Inr \<lparr>slices = map (clip strt stp)
                         (filter (\<lambda>s. strt < stop s \<and> start s < stp) (slices T))
                       @ (if t_stop T < stp then [gap (t_stop T) stp] else []),
             t_start = strt, t_stop = stp\<rparr>
      else Inl AssertionError)"
  using slice_cases[OF assms] by auto

theorem slice_cuts_and_keeps_names_witness:
  "tiled \<lparr>slices = [named ''foo'' 0 4, gap 4 6, named ''bar'' 6 10], t_start = 0, t_stop = 10\<rparr>
   \<and> slice \<lparr>slices = [named ''foo'' 0 4, gap 4 6, named ''bar'' 6 10], t_start = 0, t_stop = 10\<rparr> 2 15
       = Inr \<lparr>slices = [named ''foo'' 2 4, gap 4 6, named ''bar'' 6 10, gap 10 15],
              t_start = 2, t_stop = 15\<rparr>
   \<and> slice \<lparr>slices = [named ''foo'' 0 4, gap 4 6, named ''bar'' 6 10], t_start = 0, t_stop = 10\<rparr> 10 15
       = Inl AssertionError"
proof -
  let ?T = "\<lparr>slices = [named ''foo'' 0 4, gap 4 6, named ''bar'' 6 10], t_start = 0, t_stop = 10\<rparr>"
  have h: "tiled ?T" by code_simp
  have f2: "\<forall>s \<in> set (slices ?T). min 15 (stop s) - max 2 (start s) \<le> maxsize"
    by (simp add: named_def gap_def maxsize_def)
  have f10: "\<forall>s \<in> set (slices ?T). min 15 (stop s) - max 10 (start s) \<le> maxsize"
    by (simp add: named_def gap_def maxsize_def)
  have a: "slice ?T 2 15 = Inr \<lparr>slices = [named ''foo'' 2 4, gap 4 6, named ''bar'' 6 10, gap 10 15],
              t_start = 2, t_stop = 15\<rparr>"
    using slice_cuts_and_keeps_names[OF h _ f2]
    by (simp add: named_def gap_def clip_def contains_addr_def)
  have b: "slice ?T 10 15 = Inl AssertionError"
    using slice_cuts_and_keeps_names[OF h _ f10]
    by (simp add: named_def gap_def contains_addr_def)
  from h a b show ?thesis by (intro conjI)
qed

section \<open>What remove keeps\<close>




section \<open>Objects whose sections cross\<close>

text \<open>
  C5. Let the named Regions of a table be exactly four, each once: \<open>At\<close> and \<open>Ad\<close> with
  the name \<open>a\<close>, \<open>Bt\<close> and \<open>Bd\<close> with another name \<open>b\<close>; \<open>At\<close> and \<open>Bt\<close> in the section
  \<open>text\<close>, \<open>Ad\<close> and \<open>Bd\<close> in the section \<open>data\<close>; \<open>At\<close> starts below \<open>Bt\<close> and \<open>Ad\<close> starts
  above \<open>Bd\<close>. The table may hold any gaps beside them, in any order. Then
  \<^verbatim>\<open>object_slices\<close>, with the default section order, returns no grouping: its assertion
  that a row could be resolved fails.
\<close>

theorem object_slices_fails_on_crossed_objects:
  assumes named: "set (filter has_name (slices T)) = {At, Bt, Ad, Bd}"
    and dist: "distinct (filter has_name (slices T))"
    and nA: "name At = Some a" "name Ad = Some a"
    and nB: "name Bt = Some b" "name Bd = Some b"
    and ab: "a \<noteq> b"
    and st: "section' At = Some ''text''" "section' Bt = Some ''text''"
    and sd: "section' Ad = Some ''data''" "section' Bd = Some ''data''"
    and lt: "start At < start Bt" and ld: "start Bd < start Ad"
  shows "object_slices T SECTION_ORDER = Inl AssertionError"
proof -
  let ?N = "filter has_name (slices T)"
  let ?idx = "\<lambda>s. list_index (map Some SECTION_ORDER) (section' s)"
  let ?g = "\<lambda>k. filter (\<lambda>s. has_name s \<and> ?idx s = Inr k) (slices T)"
  have len: "length SECTION_ORDER = 13" by (simp add: SECTION_ORDER_def)
  have sec: "\<forall>s \<in> set (slices T). has_name s \<longrightarrow> section' s \<in> Some ` set SECTION_ORDER"
  proof (intro ballI impI)
    fix s assume "s \<in> set (slices T)" "has_name s"
    then have "s \<in> set ?N" by simp
    with named st sd have "section' s = Some ''text'' \<or> section' s = Some ''data''" by auto
    then show "section' s \<in> Some ` set SECTION_ORDER" by (auto simp: SECTION_ORDER_def)
  qed
  have "length (replicate (length SECTION_ORDER) ([] :: Slice list)) = length SECTION_ORDER"
    by simp
  from fill_buckets_eq[OF this sec, of Map.empty] obtain osec' where
    f: "fill_buckets SECTION_ORDER (slices T) (replicate (length SECTION_ORDER) []) Map.empty
          = Inr (map (\<lambda>k. replicate (length SECTION_ORDER) [] ! k @ ?g k)
                   [0..<length (replicate (length SECTION_ORDER) ([] :: Slice list))], osec')"
    and o: "\<And>n. osec' n =
               (if \<exists>s \<in> set (slices T). has_name s \<and> name s = n
                then Some ((case Map.empty n of None \<Rightarrow> {} | Some S \<Rightarrow> S)
                       \<union> section' ` {s \<in> set (slices T). has_name s \<and> name s = n})
                else Map.empty n)"
    by blast
  have da: "At \<noteq> Bt" "Ad \<noteq> Bd" "At \<noteq> Ad" "Bt \<noteq> Bd" "At \<noteq> Bd" "Bt \<noteq> Ad"
    using nA nB ab st sd by auto
  have g: "?g k = filter (\<lambda>s. ?idx s = Inr k) ?N" for k
    by (simp add: conj_commute)
  have it: "?idx At = Inr 3" "?idx Bt = Inr 3" and id: "?idx Ad = Inr 7" "?idx Bd = Inr 7"
    by (simp_all add: st sd index_text index_data)
  have dg: "distinct (?g k)" for k
  proof -
    from dist have "distinct (filter (\<lambda>s. ?idx s = Inr k) ?N)" by (rule distinct_filter)
    then show ?thesis by (simp only: g)
  qed
  have sg: "set (?g k) = {s \<in> {At, Bt, Ad, Bd}. ?idx s = Inr k}" for k
  proof -
    have "set (?g k) = {s \<in> set ?N. ?idx s = Inr k}" by auto
    then show ?thesis by (simp only: named)
  qed
  have g3: "sort_key start (?g 3) = [At, Bt]"
  proof -
    have "set (?g 3) = {At, Bt}"
      unfolding sg using it id by auto
    with dg[of 3] have "?g 3 = [At, Bt] \<or> ?g 3 = [Bt, At]"
      using da(1) by (rule two_elems)
    with lt show ?thesis by (rule sort_two)
  qed
  have g7: "sort_key start (?g 7) = [Bd, Ad]"
  proof -
    have "set (?g 7) = {Bd, Ad}"
      unfolding sg using it id by auto
    with dg[of 7] have "?g 7 = [Bd, Ad] \<or> ?g 7 = [Ad, Bd]"
      using da(2) by (intro two_elems) auto
    with ld show ?thesis by (rule sort_two)
  qed
  have g0: "sort_key start (?g k) = []" if "k \<noteq> 3" "k \<noteq> 7" for k
  proof -
    have "set (?g k) = {}" unfolding sg using it id that by auto
    then have "?g k = []" by (simp only: set_empty)
    then show ?thesis by simp
  qed
  have b: "map (sort_key start) (map (\<lambda>k. replicate (length SECTION_ORDER) [] ! k @ ?g k)
                   [0..<length (replicate (length SECTION_ORDER) ([] :: Slice list))])
           = [[], [], [], [At, Bt], [], [], [], [Bd, Ad], [], [], [], [], []]"
    unfolding length_replicate len upt_13 by (simp add: g3 g7 g0 del: filter.simps)
  have oa: "osec' (Some a) = Some {Some ''text'', Some ''data''}"
  proof -
    have "{s \<in> set (slices T). has_name s \<and> name s = Some a} = {s \<in> set ?N. name s = Some a}"
      by auto
    also have "\<dots> = {At, Ad}" unfolding named using nA nB ab by auto
    finally have e: "{s \<in> set (slices T). has_name s \<and> name s = Some a} = {At, Ad}" .
    then have "\<exists>s \<in> set (slices T). has_name s \<and> name s = Some a" by blast
    with o[of "Some a"] e show ?thesis by (simp add: st sd)
  qed
  have ob: "osec' (Some b) = Some {Some ''text'', Some ''data''}"
  proof -
    have "{s \<in> set (slices T). has_name s \<and> name s = Some b} = {s \<in> set ?N. name s = Some b}"
      by auto
    also have "\<dots> = {Bt, Bd}" unfolding named using nA nB ab by auto
    finally have e: "{s \<in> set (slices T). has_name s \<and> name s = Some b} = {Bt, Bd}" .
    then have "\<exists>s \<in> set (slices T). has_name s \<and> name s = Some b" by blast
    with o[of "Some b"] e show ?thesis by (simp add: st sd)
  qed
  show ?thesis
    unfolding object_slices_def f sum.case prod.case b
    by (rule merge_buckets_crossed[OF oa ob nA nB ab])
qed

theorem object_slices_fails_on_crossed_objects_witness:
  "set (filter has_name
          [\<lparr>start = 0, stop = 4, name = Some ''A'', section' = Some ''text'', tags = {}\<rparr>,
           \<lparr>start = 4, stop = 8, name = Some ''B'', section' = Some ''text'', tags = {}\<rparr>,
           gap 8 10,
           \<lparr>start = 10, stop = 14, name = Some ''B'', section' = Some ''data'', tags = {}\<rparr>,
           \<lparr>start = 14, stop = 18, name = Some ''A'', section' = Some ''data'', tags = {}\<rparr>])
     = {\<lparr>start = 0, stop = 4, name = Some ''A'', section' = Some ''text'', tags = {}\<rparr>,
        \<lparr>start = 4, stop = 8, name = Some ''B'', section' = Some ''text'', tags = {}\<rparr>,
        \<lparr>start = 14, stop = 18, name = Some ''A'', section' = Some ''data'', tags = {}\<rparr>,
        \<lparr>start = 10, stop = 14, name = Some ''B'', section' = Some ''data'', tags = {}\<rparr>}
   \<and> object_slices
        \<lparr>slices =
           [\<lparr>start = 0, stop = 4, name = Some ''A'', section' = Some ''text'', tags = {}\<rparr>,
            \<lparr>start = 4, stop = 8, name = Some ''B'', section' = Some ''text'', tags = {}\<rparr>,
            gap 8 10,
            \<lparr>start = 10, stop = 14, name = Some ''B'', section' = Some ''data'', tags = {}\<rparr>,
            \<lparr>start = 14, stop = 18, name = Some ''A'', section' = Some ''data'', tags = {}\<rparr>],
         t_start = 0, t_stop = 18\<rparr> SECTION_ORDER
       = Inl AssertionError"
proof -
  let ?At = "\<lparr>start = 0, stop = 4, name = Some ''A'', section' = Some ''text'', tags = {}\<rparr>"
  let ?Bt = "\<lparr>start = 4, stop = 8, name = Some ''B'', section' = Some ''text'', tags = {}\<rparr>"
  let ?Bd = "\<lparr>start = 10, stop = 14, name = Some ''B'', section' = Some ''data'', tags = {}\<rparr>"
  let ?Ad = "\<lparr>start = 14, stop = 18, name = Some ''A'', section' = Some ''data'', tags = {}\<rparr>"
  let ?T = "\<lparr>slices = [?At, ?Bt, gap 8 10, ?Bd, ?Ad], t_start = 0, t_stop = 18\<rparr>"
  have s: "set (filter has_name (slices ?T)) = {?At, ?Bt, ?Ad, ?Bd}"
    by (auto simp: has_name_def gap_def)
  have d: "distinct (filter has_name (slices ?T))"
    by (simp add: has_name_def gap_def)
  have "object_slices ?T SECTION_ORDER = Inl AssertionError"
    by (rule object_slices_fails_on_crossed_objects[OF s d, of "''A''" "''B''"]) simp_all
  with s show ?thesis by simp
qed

text \<open>
  When the data Regions are in the order of the text Regions, the same call returns the
  two objects, each with its text Region and its data Region.
\<close>

lemma object_slices_groups_aligned_objects:
  "object_slices
     \<lparr>slices =
        [\<lparr>start = 0, stop = 4, name = Some ''A'', section' = Some ''text'', tags = {}\<rparr>,
         \<lparr>start = 4, stop = 8, name = Some ''B'', section' = Some ''text'', tags = {}\<rparr>,
         gap 8 10,
         \<lparr>start = 10, stop = 14, name = Some ''A'', section' = Some ''data'', tags = {}\<rparr>,
         \<lparr>start = 14, stop = 18, name = Some ''B'', section' = Some ''data'', tags = {}\<rparr>],
      t_start = 0, t_stop = 18\<rparr> SECTION_ORDER
   = Inr [(Some ''A'',
           [\<lparr>start = 0, stop = 4, name = Some ''A'', section' = Some ''text'', tags = {}\<rparr>,
            \<lparr>start = 10, stop = 14, name = Some ''A'', section' = Some ''data'', tags = {}\<rparr>]),
          (Some ''B'',
           [\<lparr>start = 4, stop = 8, name = Some ''B'', section' = Some ''text'', tags = {}\<rparr>,
            \<lparr>start = 14, stop = 18, name = Some ''B'', section' = Some ''data'', tags = {}\<rparr>])]"
  by code_simp

section \<open>Writing and reading back\<close>




end
